theory Spec2Isabelle
  imports Complex_Main "HOL-Library.Word"
begin

section \<open>Errors and external collaborators\<close>

text \<open>
  The exceptions the two flows can raise from their own statements: \<open>max\<close> of an empty
  list and \<open>np.linspace\<close> with a negative count raise \<open>ValueError\<close>, a missing
  dictionary key raises \<open>KeyError\<close> (the key is recorded), an out-of-range index raises
  \<open>IndexError\<close>, \<open>%\<close> and \<open>/\<close> by zero raise \<open>ZeroDivisionError\<close>. An exception
  raised inside the audio library is carried as \<open>LibraryError\<close>.
\<close>

datatype error =
    ValueError
  | KeyError nat
  | IndexError
  | ZeroDivisionError
  | LibraryError string

text \<open>
  A key frame is a pair \<open>(frame, prompt)\<close>. \<open>parse_key_frames\<close> lives in \<open>utils\<close>,
  outside the flows; frame indices are non-negative integers.
\<close>

type_synonym key_frame = "nat \<times> string"

subsection \<open>The module-level generator \<open>random\<close>\<close>

text \<open>
  \<open>random.seed(s)\<close> and \<open>random.randint(0, 18446744073709551615)\<close> are library
  code. The state of the generator has type \<open>'g\<close>; \<open>rnd_seed s\<close> is the state
  \<open>random.seed(s)\<close> installs (it replaces the previous state), and \<open>rnd_randint g\<close>
  is the value drawn in state \<open>g\<close>, which lies in \<open>[0, 2^64 - 1]\<close>, with the state
  after the draw.
\<close>

record 'g py_random =
  rnd_seed :: "int \<Rightarrow> 'g"
  rnd_randint :: "'g \<Rightarrow> 64 word \<times> 'g"

text \<open>\<open>random.seed(s)\<close> as a transformer of the global state.\<close>

definition random_seed :: "'g py_random \<Rightarrow> int \<Rightarrow> 'g \<Rightarrow> 'g" where
  "random_seed R s g = rnd_seed R s"

text \<open>\<open>random.randint(0, 18446744073709551615)\<close>: a Python integer and the new state.\<close>

definition random_randint :: "'g py_random \<Rightarrow> 'g \<Rightarrow> int \<times> 'g" where
  "random_randint R g = (case rnd_randint R g of (w, g') \<Rightarrow> (uint w, g'))"

section \<open>Seed scheduler\<close>

text \<open>
  \<open>last_frame, _ = max(key_frames, key=lambda x: x[0]); max_frames = last_frame + 1\<close>
\<close>

definition max_frames_of :: "key_frame list \<Rightarrow> error + nat" where
  "max_frames_of key_frames =
     (if key_frames = [] then Inl ValueError
      else Inr (Max (set (map fst key_frames)) + 1))"

text \<open>
  \<open>BYOPFlow.__init__\<close>:
  \<open>random.seed(self.seed);
    self.seed_schedule = [random.randint(0, 18446744073709551615) for i in range(self.max_frames)]\<close>
\<close>

fun randint_list :: "'g py_random \<Rightarrow> nat \<Rightarrow> 'g \<Rightarrow> int list \<times> 'g" where
  "randint_list R 0 g = ([], g)"
| "randint_list R (Suc n) g =
     (case random_randint R g of (x, g') \<Rightarrow>
        (case randint_list R n g' of (xs, g'') \<Rightarrow> (x # xs, g'')))"

definition byop_seed_schedule :: "'g py_random \<Rightarrow> int \<Rightarrow> nat \<Rightarrow> 'g \<Rightarrow> int list \<times> 'g" where
  "byop_seed_schedule R seed max_frames g =
     randint_list R max_frames (random_seed R seed g)"

text \<open>
  \<open>GiffusionFlow.__init__\<close>:
  \<open>random.seed(self.seed);
    self.seed_schedule = {kf: random.randint(0, 18446744073709551615) for kf, _ in self.key_frames}\<close>
\<close>

fun randint_dict :: "'g py_random \<Rightarrow> key_frame list \<Rightarrow> (nat \<rightharpoonup> int) \<Rightarrow> 'g \<Rightarrow> (nat \<rightharpoonup> int) \<times> 'g" where
  "randint_dict R [] m g = (m, g)"
| "randint_dict R ((kf, p) # key_frames) m g =
     (case random_randint R g of (x, g') \<Rightarrow> randint_dict R key_frames (m(kf \<mapsto> x)) g')"

definition giffusion_seed_schedule ::
  "'g py_random \<Rightarrow> int \<Rightarrow> key_frame list \<Rightarrow> 'g \<Rightarrow> (nat \<rightharpoonup> int) \<times> 'g" where
  "giffusion_seed_schedule R seed key_frames g =
     randint_dict R key_frames Map.empty (random_seed R seed g)"

section \<open>Array functions of numpy\<close>

text \<open>
  The arrays of the schedulers hold floating-point numbers; they are modelled by exact
  reals, so rounding is not part of the model. A value that is not a finite number (the
  result of a division by zero: NaN or an infinity) is \<open>NonFinite\<close>.
\<close>

datatype npfloat = Finite real | NonFinite

text \<open>
  \<open>np.linspace(start, stop, num)\<close>: \<open>num\<close> equally spaced samples with both end
  points; a single sample is \<open>start\<close>; a negative \<open>num\<close> raises \<open>ValueError\<close>.
\<close>

definition linspace :: "real \<Rightarrow> real \<Rightarrow> int \<Rightarrow> error + real list" where
  "linspace start stop num =
     (if num < 0 then Inl ValueError
      else if num = 1 then Inr [start]
      else Inr (map (\<lambda>i. start + real i * ((stop - start) / real (nat num - 1)))
                  [0..<nat num]))"

text \<open>\<open>np.cumsum\<close>.\<close>

fun cumsum_from :: "real \<Rightarrow> real list \<Rightarrow> real list" where
  "cumsum_from acc [] = []"
| "cumsum_from acc (x # xs) = (acc + x) # cumsum_from (acc + x) xs"

definition cumsum :: "real list \<Rightarrow> real list" where
  "cumsum xs = cumsum_from 0 xs"

text \<open>
  \<open>np.interp(x, xp, fp)\<close> at one point, for increasing sample points \<open>xp\<close>: the value
  \<open>fp[0]\<close> left of the first sample point and \<open>fp[-1]\<close> right of the last one, and the
  line through the two neighbouring samples in between.
\<close>

fun interp_at :: "real \<Rightarrow> real list \<Rightarrow> real list \<Rightarrow> real" where
  "interp_at x (x0 # x1 # xp) (y0 # y1 # fp) =
     (if x \<le> x0 then y0
      else if x < x1 then y0 + ((y1 - y0) / (x1 - x0)) * (x - x0)
      else interp_at x (x1 # xp) (y1 # fp))"
| "interp_at x xp (y0 # fp) = y0"
| "interp_at x xp [] = 0"

text \<open>
  \<open>np.interp\<close> on an array of points; it raises \<open>ValueError\<close> when there is no sample
  point or when \<open>xp\<close> and \<open>fp\<close> differ in length.
\<close>

definition interp :: "real list \<Rightarrow> real list \<Rightarrow> real list \<Rightarrow> error + real list" where
  "interp xs xp fp =
     (if xp = [] \<or> length xp \<noteq> length fp then Inl ValueError
      else Inr (map (\<lambda>x. interp_at x xp fp) xs))"

section \<open>Interpolation scheduler\<close>

text \<open>
  The onset envelope
  \<open>librosa.util.normalize(librosa.onset.onset_strength(audio_slice, sr=sr))\<close> is
  computed by the audio library: it is the parameter \<open>onset\<close>, which returns the
  envelope or the exception the library raised.

  \<open>BYOPFlow.get_interpolation_schedule_from_audio\<close> is modelled in three parts. The
  first is the slice \<open>audio_array[start_sample:end_sample]\<close>; the sample positions
  \<open>int((frame / fps) * sr)\<close> are computed exactly, where the code truncates a rounded
  floating-point product, which can be one sample lower.
\<close>

definition audio_slice :: "nat \<Rightarrow> nat \<Rightarrow> nat \<Rightarrow> real list \<Rightarrow> nat \<Rightarrow> real list" where
  "audio_slice start_frame end_frame fps audio_array sr =
     (let start_sample = (start_frame * sr) div fps;
          end_sample = (end_frame * sr) div fps
      in drop start_sample (take end_sample audio_array))"

text \<open>
  The second part is the code after the envelope is known. \<open>schedule_y[-1]\<close> raises
  \<open>IndexError\<close> on an empty envelope, and the in-place division by a zero total raises
  nothing: every value of the curve becomes NaN or an infinity, and so does every
  interpolated fraction.
\<close>

definition schedule_from_onset :: "real list \<Rightarrow> int \<Rightarrow> error + npfloat list" where
  "schedule_from_onset onset_env num_frames =
     (case linspace 0 (real (length onset_env)) (int (length onset_env)) of
        Inl e \<Rightarrow> Inl e
      | Inr schedule_x \<Rightarrow>
          let schedule_y = cumsum onset_env in
          if schedule_y = [] then Inl IndexError
          else
            (case linspace 0 (real (length schedule_y)) num_frames of
               Inl e \<Rightarrow> Inl e
             | Inr resized_schedule \<Rightarrow>
                 if last schedule_y = 0
                 then Inr (map (\<lambda>x. NonFinite) resized_schedule)
                 else
                   (case interp resized_schedule schedule_x
                           (map (\<lambda>y. y / last schedule_y) schedule_y) of
                      Inl e \<Rightarrow> Inl e
                    | Inr interp_schedule \<Rightarrow> Inr (map Finite interp_schedule))))"

text \<open>The whole function: a zero \<open>fps\<close> raises \<open>ZeroDivisionError\<close>.\<close>

definition get_interpolation_schedule_from_audio ::
  "(real list \<Rightarrow> nat \<Rightarrow> error + real list) \<Rightarrow> nat \<Rightarrow> nat \<Rightarrow> nat \<Rightarrow> real list \<Rightarrow> nat
     \<Rightarrow> error + npfloat list" where
  "get_interpolation_schedule_from_audio onset start_frame end_frame fps audio_array sr =
     (let num_frames = int end_frame - int start_frame + 1 in
      if fps = 0 then Inl ZeroDivisionError
      else
        (case onset (audio_slice start_frame end_frame fps audio_array sr) sr of
           Inl e \<Rightarrow> Inl e
         | Inr onset_env \<Rightarrow> schedule_from_onset onset_env num_frames))"

text \<open>
  \<open>BYOPFlow.get_interpolation_schedule\<close>: the audio path whenever an audio array is
  configured, \<open>np.linspace(0, 1, num_frames)\<close> otherwise.
\<close>

definition get_interpolation_schedule ::
  "(real list \<Rightarrow> nat \<Rightarrow> error + real list) \<Rightarrow> nat \<Rightarrow> nat \<Rightarrow> nat \<Rightarrow> real list option \<Rightarrow> nat
     \<Rightarrow> error + npfloat list" where
  "get_interpolation_schedule onset start_frame end_frame fps audio_array sr =
     (case audio_array of
        Some a \<Rightarrow> get_interpolation_schedule_from_audio onset start_frame end_frame fps a sr
      | None \<Rightarrow>
          (case linspace 0 1 (int end_frame - int start_frame + 1) of
             Inl e \<Rightarrow> Inl e
           | Inr fractions \<Rightarrow> Inr (map Finite fractions)))"

section \<open>The flows\<close>

text \<open>
  Tensors (latents and prompt embeddings) have type \<open>'t\<close>, video frames and images
  type \<open>'img\<close>. A batch tensor made by \<open>torch.cat(..., dim=0)\<close> from per-frame tensors
  of leading dimension 1 is the list of its rows.

  The collaborators outside the flows:
  \<^item> \<open>randn s\<close> is \<open>torch.randn(shape, generator=generator.manual_seed(s))\<close>, a
    function of the seed because the generator is re-seeded right before the draw;
  \<^item> \<open>slerp t v0 v1\<close> is \<open>utils.slerp(float(t), v0, v1)\<close>;
  \<^item> \<open>prompt_to_embedding\<close> and \<open>pad_embedding\<close> are methods of \<open>BaseFlow\<close>;
  \<^item> \<open>onset_env\<close> is the onset envelope of the audio library.
\<close>

record 't collaborators =
  randn :: "int \<Rightarrow> 't"
  slerp :: "npfloat \<Rightarrow> 't \<Rightarrow> 't \<Rightarrow> 't"
  prompt_to_embedding :: "string \<Rightarrow> 't"
  pad_embedding :: "'t \<Rightarrow> 't \<Rightarrow> 't \<times> 't"
  onset_env :: "real list \<Rightarrow> nat \<Rightarrow> error + real list"

text \<open>
  A \<open>torch.Generator\<close>: the seed it was last given and the number of draws made since.
  \<open>manual_seed\<close> resets it and returns the generator itself.
\<close>

datatype torch_generator = Generator int nat

definition manual_seed :: "int \<Rightarrow> torch_generator \<Rightarrow> torch_generator" where
  "manual_seed s g = Generator s 0"

text \<open>
  An entry of \<open>BYOPFlow.prompts\<close>: an embedding tensor, a raw prompt string, or the
  \<open>nan\<close> that \<open>get_prompts\<close> leaves before the first key frame.
\<close>

datatype 't prompt = Embedding 't | Text string | NaN

text \<open>A parsed JSON value (\<open>json.loads\<close>).\<close>

datatype json = JNull | JBool bool | JNum real | JStr string | JArr "json list"
  | JObj "(string \<times> json) list"

text \<open>The values of the keyword arguments handed to the pipeline.\<close>

datatype ('t, 'img) pyval =
    PyInt int
  | PyFloat real
  | PyLatents "'t list"
  | PyPrompts "'t prompt list"
  | PyStrings "string list"
  | PyImages "'img list"
  | PyGenerator torch_generator
  | PyJson json

record ('t, 'img) byop_flow =
  pipe_signature :: "string set"
  negative_prompts :: string
  use_fixed_latent :: bool
  use_prompt_embeds :: bool
  additional_pipeline_argumenets :: "string \<rightharpoonup> json"
  guidance_scale :: real
  num_inference_steps :: int
  strength :: real
  seed :: int
  generator :: torch_generator
  fps :: nat
  image_input :: "'img option"
  video_input :: "string option"
  frames :: "'img list option"
  height :: int
  width :: int
  audio_array :: "real list option"
  sr :: nat
  max_frames :: nat
  seed_schedule :: "int list"
  init_latents :: "nat \<rightharpoonup> 't"
  prompts :: "nat \<rightharpoonup> 't prompt"

record 't giffusion_flow =
  g_pipe_signature :: "string set"
  g_use_fixed_latent :: bool
  g_seed :: int
  g_seed_schedule :: "nat \<rightharpoonup> int"
  g_max_frames :: nat
  g_init_latents :: "nat \<rightharpoonup> 't"
  g_text_embeddings :: "nat \<rightharpoonup> 't"

section \<open>Latent and embedding timeline builder\<close>

text \<open>
  \<open>for i, t in enumerate(interp_schedule): output[i + start_frame] = f(t)\<close>
\<close>

fun store_frames :: "(npfloat \<Rightarrow> 'a) \<Rightarrow> nat \<Rightarrow> npfloat list \<Rightarrow> (nat \<rightharpoonup> 'a) \<Rightarrow> (nat \<rightharpoonup> 'a)" where
  "store_frames f k [] output = output"
| "store_frames f k (t # ts) output = store_frames f (Suc k) ts (output(k \<mapsto> f t))"

text \<open>
  \<open>self.seed_schedule[end_frame]\<close> on the list of \<open>BYOPFlow\<close>.
\<close>

definition seed_at :: "int list \<Rightarrow> nat \<Rightarrow> error + int" where
  "seed_at schedule i = (if i < length schedule then Inr (schedule ! i) else Inl IndexError)"

text \<open>
  The loop of \<open>BYOPFlow.get_init_latents\<close> over
  \<open>zip(key_frames, key_frames[1:])\<close>, with the running \<open>start_latent\<close> and \<open>output\<close>.
\<close>

fun get_init_latents_loop ::
  "'t collaborators \<Rightarrow> ('t, 'img) byop_flow \<Rightarrow> (key_frame \<times> key_frame) list \<Rightarrow> 't
     \<Rightarrow> (nat \<rightharpoonup> 't) \<Rightarrow> error + (nat \<rightharpoonup> 't)" where
  "get_init_latents_loop E F [] start_latent output = Inr output"
| "get_init_latents_loop E F (((start_frame, p), (end_frame, q)) # pairs) start_latent output =
     (case (if use_fixed_latent F then Inr start_latent
            else (case seed_at (seed_schedule F) end_frame of
                    Inl e \<Rightarrow> Inl e
                  | Inr s \<Rightarrow> Inr (randn E s))) of
        Inl e \<Rightarrow> Inl e
      | Inr end_latent \<Rightarrow>
          (case get_interpolation_schedule (onset_env E) start_frame end_frame (fps F)
                  (audio_array F) (sr F) of
             Inl e \<Rightarrow> Inl e
           | Inr interp_schedule \<Rightarrow>
               get_init_latents_loop E F pairs end_latent
                 (store_frames (\<lambda>t. slerp E t start_latent end_latent) start_frame
                    interp_schedule output)))"

definition get_init_latents ::
  "'t collaborators \<Rightarrow> ('t, 'img) byop_flow \<Rightarrow> key_frame list \<Rightarrow> error + (nat \<rightharpoonup> 't)" where
  "get_init_latents E F key_frames =
     get_init_latents_loop E F (zip key_frames (drop 1 key_frames)) (randn E (seed F))
       Map.empty"

text \<open>\<open>BYOPFlow.get_prompt_embeddings\<close>.\<close>

fun get_prompt_embeddings_loop ::
  "'t collaborators \<Rightarrow> ('t, 'img) byop_flow \<Rightarrow> (key_frame \<times> key_frame) list
     \<Rightarrow> (nat \<rightharpoonup> 't) \<Rightarrow> error + (nat \<rightharpoonup> 't)" where
  "get_prompt_embeddings_loop E F [] output = Inr output"
| "get_prompt_embeddings_loop E F (((start_frame, start_prompt), (end_frame, end_prompt)) # pairs)
       output =
     (case get_interpolation_schedule (onset_env E) start_frame end_frame (fps F)
             (audio_array F) (sr F) of
        Inl e \<Rightarrow> Inl e
      | Inr interp_schedule \<Rightarrow>
          get_prompt_embeddings_loop E F pairs
            (store_frames
               (\<lambda>t. slerp E t (prompt_to_embedding E start_prompt)
                       (prompt_to_embedding E end_prompt))
               start_frame interp_schedule output))"

definition get_prompt_embeddings ::
  "'t collaborators \<Rightarrow> ('t, 'img) byop_flow \<Rightarrow> key_frame list \<Rightarrow> error + (nat \<rightharpoonup> 't)" where
  "get_prompt_embeddings E F key_frames =
     get_prompt_embeddings_loop E F (zip key_frames (drop 1 key_frames)) Map.empty"

text \<open>
  \<open>GiffusionFlow.get_init_latents_and_text_embeddings\<close>. The inner loop pads the two
  text embeddings again at every frame and keeps the padded pair.
\<close>

fun giffusion_frames ::
  "'t collaborators \<Rightarrow> nat \<Rightarrow> real list \<Rightarrow> 't \<Rightarrow> 't \<Rightarrow> 't \<Rightarrow> 't
     \<Rightarrow> (nat \<rightharpoonup> 't) \<times> (nat \<rightharpoonup> 't) \<Rightarrow> (nat \<rightharpoonup> 't) \<times> (nat \<rightharpoonup> 't)" where
  "giffusion_frames E k [] start_latent end_latent start_text end_text outputs = outputs"
| "giffusion_frames E k (t # ts) start_latent end_latent start_text end_text
       (latent_output, text_output) =
     (case pad_embedding E start_text end_text of
        (start_text', end_text') \<Rightarrow>
          giffusion_frames E (Suc k) ts start_latent end_latent start_text' end_text'
            (latent_output(k \<mapsto> slerp E (Finite t) start_latent end_latent),
             text_output(k \<mapsto> slerp E (Finite t) start_text' end_text')))"

definition seed_of :: "(nat \<rightharpoonup> int) \<Rightarrow> nat \<Rightarrow> error + int" where
  "seed_of schedule k = (case schedule k of None \<Rightarrow> Inl (KeyError k) | Some s \<Rightarrow> Inr s)"

fun giffusion_loop ::
  "'t collaborators \<Rightarrow> 't giffusion_flow \<Rightarrow> bool \<Rightarrow> (key_frame \<times> key_frame) list \<Rightarrow> 't
     \<Rightarrow> (nat \<rightharpoonup> 't) \<times> (nat \<rightharpoonup> 't) \<Rightarrow> error + (nat \<rightharpoonup> 't) \<times> (nat \<rightharpoonup> 't)" where
  "giffusion_loop E F fixed [] start_latent outputs = Inr outputs"
| "giffusion_loop E F fixed (((start_frame, start_prompt), (end_frame, end_prompt)) # pairs)
       start_latent outputs =
     (case (if fixed then Inr start_latent
            else (case seed_of (g_seed_schedule F) end_frame of
                    Inl e \<Rightarrow> Inl e
                  | Inr s \<Rightarrow> Inr (randn E s))) of
        Inl e \<Rightarrow> Inl e
      | Inr end_latent \<Rightarrow>
          (case linspace 0 1 (int end_frame - int start_frame + 1) of
             Inl e \<Rightarrow> Inl e
           | Inr interp_schedule \<Rightarrow>
               giffusion_loop E F fixed pairs end_latent
                 (giffusion_frames E start_frame interp_schedule start_latent end_latent
                    (prompt_to_embedding E start_prompt) (prompt_to_embedding E end_prompt)
                    outputs)))"

definition get_init_latents_and_text_embeddings ::
  "'t collaborators \<Rightarrow> 't giffusion_flow \<Rightarrow> key_frame list \<Rightarrow> bool
     \<Rightarrow> error + (nat \<rightharpoonup> 't) \<times> (nat \<rightharpoonup> 't)" where
  "get_init_latents_and_text_embeddings E F key_frames fixed =
     giffusion_loop E F fixed (zip key_frames (drop 1 key_frames)) (randn E (g_seed F))
       (Map.empty, Map.empty)"

section \<open>Forward-filled raw prompts\<close>

text \<open>
  \<open>BYOPFlow.get_prompts\<close>. The pandas series is the list of its rows, each a label and
  a value (\<open>None\<close> is \<open>nan\<close>). \<open>series[frame_idx] = prompt\<close> writes the row that has
  the label, and appends a row when no row has it; \<open>ffill\<close> replaces every \<open>nan\<close> by the
  last value before it; \<open>enumerate\<close> numbers the rows by position.
\<close>

fun series_set :: "(nat \<times> string option) list \<Rightarrow> nat \<Rightarrow> string \<Rightarrow> (nat \<times> string option) list" where
  "series_set [] k v = [(k, Some v)]"
| "series_set ((l, x) # rows) k v =
     (if l = k then (l, Some v) # rows else (l, x) # series_set rows k v)"

fun ffill_from :: "string option \<Rightarrow> string option list \<Rightarrow> string option list" where
  "ffill_from prev [] = []"
| "ffill_from prev (None # xs) = prev # ffill_from prev xs"
| "ffill_from prev (Some v # xs) = Some v # ffill_from (Some v) xs"

definition ffill :: "string option list \<Rightarrow> string option list" where
  "ffill xs = ffill_from None xs"

fun set_key_frames :: "(nat \<times> string option) list \<Rightarrow> key_frame list \<Rightarrow> (nat \<times> string option) list" where
  "set_key_frames series [] = series"
| "set_key_frames series ((frame_idx, prompt) # key_frames) =
     set_key_frames (series_set series frame_idx prompt) key_frames"

definition prompt_of :: "string option \<Rightarrow> 't prompt" where
  "prompt_of v = (case v of None \<Rightarrow> NaN | Some p \<Rightarrow> Text p)"

definition get_prompts ::
  "('t, 'img) byop_flow \<Rightarrow> key_frame list \<Rightarrow> (nat \<rightharpoonup> 't prompt)" where
  "get_prompts F key_frames =
     (let key_frame_series =
            set_key_frames (map (\<lambda>a. (a, None)) [0..<max_frames F]) key_frames;
          filled = ffill (map snd key_frame_series)
      in (\<lambda>frame_idx. if frame_idx < length filled
                        then Some (prompt_of (filled ! frame_idx)) else None))"

section \<open>Batcher\<close>

record ('t, 'img) byop_batch =
  b_prompts :: "'t prompt list"
  b_init_latents :: "'t list"
  b_images :: "'img list"

text \<open>
  \<open>BYOPFlow.batch_generator\<close>: the batches yielded, in order, and the exception that
  ended the generator, if one did. The three running lists are arguments of the loop.
\<close>

fun byop_batch_loop ::
  "('t, 'img) byop_flow \<Rightarrow> int \<Rightarrow> nat list \<Rightarrow> 't prompt list \<Rightarrow> 't list \<Rightarrow> 'img list
     \<Rightarrow> ('t, 'img) byop_batch list \<times> error option" where
  "byop_batch_loop F batch_size [] prompt_batch latent_batch image_batch = ([], None)"
| "byop_batch_loop F batch_size (frame_idx # rest) prompt_batch latent_batch image_batch =
     (case prompts F frame_idx of
        None \<Rightarrow> ([], Some (KeyError frame_idx))
      | Some p \<Rightarrow>
          (case init_latents F frame_idx of
             None \<Rightarrow> ([], Some (KeyError frame_idx))
           | Some l \<Rightarrow>
               (case (case frames F of
                        None \<Rightarrow> Inr image_batch
                      | Some video \<Rightarrow>
                          if frame_idx < length video
                          then Inr (image_batch @ [video ! frame_idx])
                          else Inl IndexError) of
                  Inl e \<Rightarrow> ([], Some e)
                | Inr image_batch' \<Rightarrow>
                    if batch_size = 0 then ([], Some ZeroDivisionError)
                    else if int (length (prompt_batch @ [p])) mod batch_size = 0
                    then
                      (case byop_batch_loop F batch_size rest [] [] [] of
                         (batches, err) \<Rightarrow>
                           (\<lparr> b_prompts = prompt_batch @ [p],
                               b_init_latents = latent_batch @ [l],
                               b_images = image_batch' \<rparr> # batches, err))
                    else byop_batch_loop F batch_size rest (prompt_batch @ [p])
                           (latent_batch @ [l]) image_batch')))"

definition byop_batch_generator ::
  "('t, 'img) byop_flow \<Rightarrow> nat list \<Rightarrow> int \<Rightarrow> ('t, 'img) byop_batch list \<times> error option" where
  "byop_batch_generator F frame_list batch_size =
     byop_batch_loop F batch_size frame_list [] [] []"

record 't giffusion_batch =
  gb_text_embeddings :: "'t list"
  gb_init_latents :: "'t list"
  gb_generators :: "torch_generator list"

text \<open>
  \<open>GiffusionFlow.batch_generator\<close>. The generator of a batch is a fresh one seeded with
  \<open>self.seed_schedule[frame_idx]\<close> for the last frame of the batch.
\<close>

fun giffusion_batch_loop ::
  "'t giffusion_flow \<Rightarrow> int \<Rightarrow> nat list \<Rightarrow> 't list \<Rightarrow> 't list
     \<Rightarrow> 't giffusion_batch list \<times> error option" where
  "giffusion_batch_loop F batch_size [] text_batch latent_batch = ([], None)"
| "giffusion_batch_loop F batch_size (frame_idx # rest) text_batch latent_batch =
     (case g_text_embeddings F frame_idx of
        None \<Rightarrow> ([], Some (KeyError frame_idx))
      | Some e \<Rightarrow>
          (case g_init_latents F frame_idx of
             None \<Rightarrow> ([], Some (KeyError frame_idx))
           | Some l \<Rightarrow>
               if batch_size = 0 then ([], Some ZeroDivisionError)
               else if int (length (text_batch @ [e])) mod batch_size = 0
               then
                 (case seed_of (g_seed_schedule F) frame_idx of
                    Inl err \<Rightarrow> ([], Some err)
                  | Inr s \<Rightarrow>
                      (case giffusion_batch_loop F batch_size rest [] [] of
                         (batches, err) \<Rightarrow>
                           (\<lparr> gb_text_embeddings = text_batch @ [e],
                               gb_init_latents = latent_batch @ [l],
                               gb_generators = [Generator s 0] \<rparr> # batches, err)))
               else giffusion_batch_loop F batch_size rest (text_batch @ [e])
                      (latent_batch @ [l])))"

definition giffusion_batch_generator ::
  "'t giffusion_flow \<Rightarrow> nat list \<Rightarrow> int \<Rightarrow> 't giffusion_batch list \<times> error option" where
  "giffusion_batch_generator F frame_list batch_size =
     giffusion_batch_loop F batch_size frame_list [] []"

section \<open>Capability-aware argument builder\<close>

text \<open>
  \<open>if c: pipe_kwargs.update({k: v})\<close>
\<close>

definition update_when ::
  "bool \<Rightarrow> string \<Rightarrow> 'v \<Rightarrow> (string \<rightharpoonup> 'v) \<Rightarrow> (string \<rightharpoonup> 'v)" where
  "update_when c k v pipe_kwargs = (if c then pipe_kwargs(k \<mapsto> v) else pipe_kwargs)"

text \<open>
  \<open>BYOPFlow.prepare_inputs\<close>: the keyword arguments, and the flow afterwards (its
  generator is re-seeded when the pipeline accepts one; the emitted value is that same
  generator object). \<open>update\<close> with the additional arguments comes last.
\<close>

definition prepare_inputs ::
  "('t, 'img) byop_flow \<Rightarrow> ('t, 'img) byop_batch
     \<Rightarrow> (string \<rightharpoonup> ('t, 'img) pyval) \<times> ('t, 'img) byop_flow" where
  "prepare_inputs F batch =
     (let prompts = b_prompts batch;
          latents = b_init_latents batch;
          images = b_images batch;
          k0 = [''num_inference_steps'' \<mapsto> PyInt (num_inference_steps F),
                ''guidance_scale'' \<mapsto> PyFloat (guidance_scale F)];
          k1 = update_when (''height'' \<in> pipe_signature F) ''height'' (PyInt (height F)) k0;
          k2 = update_when (''width'' \<in> pipe_signature F) ''width'' (PyInt (width F)) k1;
          k3 = update_when (''strength'' \<in> pipe_signature F) ''strength''
                 (PyFloat (strength F)) k2;
          k4 = update_when (''latents'' \<in> pipe_signature F) ''latents'' (PyLatents latents) k3;
          k5 = (if ''prompt_embeds'' \<in> pipe_signature F \<and> use_prompt_embeds F
                then k4(''prompt_embeds'' \<mapsto> PyPrompts prompts)
                else if ''prompt'' \<in> pipe_signature F \<and> \<not> use_prompt_embeds F
                then k4(''prompt'' \<mapsto> PyPrompts prompts)
                else k4);
          k6 = update_when (''negative_prompts'' \<in> pipe_signature F) ''negative_prompts''
                 (PyStrings (replicate (length prompts) (negative_prompts F))) k5;
          k7 = (if ''image'' \<in> pipe_signature F
                then (if video_input F \<noteq> None \<and> length images \<noteq> 0
                      then k6(''image'' \<mapsto> PyImages images)
                      else (case image_input F of
                              Some img \<Rightarrow> k6(''image'' \<mapsto> PyImages (replicate (length prompts) img))
                            | None \<Rightarrow> k6))
                else k6);
          F' = (if ''generator'' \<in> pipe_signature F
                then F\<lparr>generator := manual_seed (seed F) (generator F)\<rparr> else F);
          k8 = update_when (''generator'' \<in> pipe_signature F) ''generator''
                 (PyGenerator (generator F')) k7
      in (k8 ++ (map_option PyJson \<circ> additional_pipeline_argumenets F), F'))"

text \<open>
  The loop of \<open>BYOPFlow.create\<close> over the batches: the keyword arguments of every
  pipeline call. \<open>pipe kwargs g\<close> is the state in which the call leaves the flow's
  generator \<open>g\<close>.
\<close>

fun create_loop ::
  "((string \<rightharpoonup> ('t, 'img) pyval) \<Rightarrow> torch_generator \<Rightarrow> torch_generator)
     \<Rightarrow> ('t, 'img) byop_flow \<Rightarrow> ('t, 'img) byop_batch list
     \<Rightarrow> (string \<rightharpoonup> ('t, 'img) pyval) list" where
  "create_loop pipe F [] = []"
| "create_loop pipe F (batch # batches) =
     (case prepare_inputs F batch of
        (pipe_kwargs, F') \<Rightarrow>
          pipe_kwargs # create_loop pipe (F'\<lparr>generator := pipe pipe_kwargs (generator F')\<rparr>) batches)"

section \<open>Concrete flows\<close>

text \<open>
  A text-to-image flow whose pipeline accepts only \<open>prompt\<close> and \<open>latents\<close>, in
  prompt-embedding mode, with a conditioning image and negative prompts configured; and a
  batch of two frames. Tensors are numbers here.
\<close>

definition example_flow :: "(real, nat) byop_flow" where
  "example_flow =
     \<lparr> pipe_signature = {''prompt'', ''latents''},
       negative_prompts = ''blurry'',
       use_fixed_latent = False,
       use_prompt_embeds = True,
       additional_pipeline_argumenets = Map.empty,
       guidance_scale = 7.5,
       num_inference_steps = 50,
       strength = 0.5,
       seed = 42,
       generator = Generator 7 3,
       fps = 10,
       image_input = Some 1,
       video_input = None,
       frames = None,
       height = 512,
       width = 512,
       audio_array = None,
       sr = 0,
       max_frames = 10,
       seed_schedule = [],
       init_latents = (\<lambda>f. if f < 10 then Some (real f) else None),
       prompts = (\<lambda>f. if f < 10 then Some (Text ''A'') else None) \<rparr>"

definition example_batch :: "(real, nat) byop_batch" where
  "example_batch = \<lparr> b_prompts = [Text ''A'', Text ''A''], b_init_latents = [0, 1], b_images = [] \<rparr>"

definition generator_flow :: "(real, nat) byop_flow" where
  "generator_flow = example_flow\<lparr>pipe_signature := {''prompt'', ''latents'', ''generator''}\<rparr>"

text \<open>A \<open>GiffusionFlow\<close> whose timelines and seed schedule cover the frames 0 to 9.\<close>

definition example_giffusion_flow :: "real giffusion_flow" where
  "example_giffusion_flow =
     \<lparr> g_pipe_signature = {''prompt_embeds'', ''latents''},
       g_use_fixed_latent = False,
       g_seed = 42,
       g_seed_schedule = (\<lambda>f. if f < 10 then Some (int f + 100) else None),
       g_max_frames = 10,
       g_init_latents = (\<lambda>f. if f < 10 then Some (real f) else None),
       g_text_embeddings = (\<lambda>f. if f < 10 then Some (real f / 2) else None) \<rparr>"

text \<open>
  An onset extractor to run the audio path on: it refuses a slice of fewer than two
  samples, as the audio library refuses a slice shorter than its analysis window, and
  otherwise returns the rises of the absolute signal, starting at 0 and divided by their
  maximum unless that is 0.
\<close>

definition example_onset :: "real list \<Rightarrow> nat \<Rightarrow> error + real list" where
  "example_onset samples rate =
     (if length samples < 2 then Inl (LibraryError ''ParameterError'')
      else
        (let env = 0 # map (\<lambda>(a, b). max 0 (\<bar>b\<bar> - \<bar>a\<bar>)) (zip samples (tl samples));
             m = Max (set env)
         in Inr (if m = 0 then env else map (\<lambda>x. x / m) env)))"

section \<open>Notions used in the statements\<close>

text \<open>
  The full consecutive groups of \<open>b\<close> elements of a list, and the batch made from a
  group of frames when \<open>P\<close>, \<open>L\<close>, \<open>T\<close> and \<open>S\<close> give the timeline entries and seeds.
\<close>

definition consecutive_batches :: "nat \<Rightarrow> 'a list \<Rightarrow> 'a list list" where
  "consecutive_batches b xs = map (\<lambda>k. take b (drop (k * b) xs)) [0..<length xs div b]"

definition byop_batch_of ::
  "('t, 'img) byop_flow \<Rightarrow> (nat \<Rightarrow> 't prompt) \<Rightarrow> (nat \<Rightarrow> 't) \<Rightarrow> nat list \<Rightarrow> ('t, 'img) byop_batch" where
  "byop_batch_of F P L c =
     \<lparr> b_prompts = map P c, b_init_latents = map L c,
       b_images = (case frames F of None \<Rightarrow> [] | Some video \<Rightarrow> map (\<lambda>f. video ! f) c) \<rparr>"

definition giffusion_batch_of ::
  "(nat \<Rightarrow> 't) \<Rightarrow> (nat \<Rightarrow> 't) \<Rightarrow> (nat \<Rightarrow> int) \<Rightarrow> nat list \<Rightarrow> 't giffusion_batch" where
  "giffusion_batch_of T L S c =
     \<lparr> gb_text_embeddings = map T c, gb_init_latents = map L c,
       gb_generators = [Generator (S (last c)) 0] \<rparr>"

text \<open>The values of the series after the assignments of the key frames, by label.\<close>

fun store_key_frames :: "key_frame list \<Rightarrow> (nat \<Rightarrow> string option) \<Rightarrow> (nat \<Rightarrow> string option)" where
  "store_key_frames [] v = v"
| "store_key_frames ((k, p) # key_frames) v = store_key_frames key_frames (v(k := Some p))"

section \<open>Properties of the seed scheduler\<close>

lemma length_randint_list_aux: "randint_list R n g = (xs, g') \<Longrightarrow> length xs = n"
proof (induction n arbitrary: g xs g')
  case 0
  then show ?case by simp
next
  case (Suc n)
  obtain x g1 where x: "random_randint R g = (x, g1)"
    by (cases "random_randint R g")
  obtain ys g2 where ys: "randint_list R n g1 = (ys, g2)"
    by (cases "randint_list R n g1")
  from Suc.prems x ys have "xs = x # ys" by simp
  moreover from Suc.IH [OF ys] have "length ys = n" .
  ultimately show ?case by simp
qed

lemma length_randint_list: "length (fst (randint_list R n g)) = n"
  using length_randint_list_aux [of R n g] by (cases "randint_list R n g") simp

lemma random_randint_range: "random_randint R g = (x, g') \<Longrightarrow> 0 \<le> x \<and> x < 2 ^ 64"
proof -
  assume a: "random_randint R g = (x, g')"
  obtain w g1 where w: "rnd_randint R g = (w, g1)"
    by (cases "rnd_randint R g")
  have "0 \<le> uint w" "uint w < 2 ^ 64"
    using uint_bounded [of w] by simp_all
  with a w show ?thesis
    by (auto simp: random_randint_def)
qed

lemma randint_list_range_aux:
  "randint_list R n g = (xs, g') \<Longrightarrow> y \<in> set xs \<Longrightarrow> 0 \<le> y \<and> y < 2 ^ 64"
proof (induction n arbitrary: g xs g')
  case 0
  then show ?case by simp
next
  case (Suc n)
  obtain x g1 where x: "random_randint R g = (x, g1)"
    by (cases "random_randint R g")
  obtain ys g2 where ys: "randint_list R n g1 = (ys, g2)"
    by (cases "randint_list R n g1")
  from Suc.prems(1) x ys have xs: "xs = x # ys" by simp
  show ?case
  proof (cases "y = x")
    case True
    with random_randint_range [OF x] show ?thesis by simp
  next
    case False
    with Suc.prems(2) xs have "y \<in> set ys" by simp
    with Suc.IH [OF ys] show ?thesis by simp
  qed
qed

lemma randint_list_range:
  "y \<in> set (fst (randint_list R n g)) \<Longrightarrow> 0 \<le> y \<and> y < 2 ^ 64"
  using randint_list_range_aux [of R n g] by (cases "randint_list R n g") simp

lemma dom_randint_dict_aux:
  "randint_dict R key_frames m g = (m', g') \<Longrightarrow> dom m' = dom m \<union> fst ` set key_frames"
proof (induction key_frames arbitrary: m g)
  case Nil
  then show ?case by simp
next
  case (Cons kf key_frames)
  obtain f p where kf: "kf = (f, p)" by (cases kf)
  obtain x g1 where x: "random_randint R g = (x, g1)"
    by (cases "random_randint R g")
  from Cons.prems kf x have "randint_dict R key_frames (m(f \<mapsto> x)) g1 = (m', g')"
    by simp
  from Cons.IH [OF this] kf show ?case by auto
qed

lemma dom_randint_dict:
  "dom (fst (randint_dict R key_frames m g)) = dom m \<union> fst ` set key_frames"
  using dom_randint_dict_aux [of R key_frames m g] by (cases "randint_dict R key_frames m g") simp

text \<open>
  C4. The seed schedule of \<open>BYOPFlow\<close> is a function of the master seed and the frame
  count alone: whatever state the module-level generator was in before the construction,
  the same seeds are drawn and the generator is left in the same state.
\<close>

theorem seed_schedule_deterministic:
  "byop_seed_schedule R s n g1 = byop_seed_schedule R s n g2"
  by (simp add: byop_seed_schedule_def random_seed_def)

section \<open>Properties of the argument builder\<close>

lemma update_when_apply:
  "update_when c k v m k' = (if c \<and> k' = k then Some v else m k')"
  by (simp add: update_when_def)

lemma prepare_inputs_image:
  "''image'' \<notin> pipe_signature F \<Longrightarrow>
   fst (prepare_inputs F batch) ''image'' = map_option PyJson (additional_pipeline_argumenets F ''image'')"
  by (auto simp: prepare_inputs_def Let_def map_add_def update_when_apply if_distribR split: option.splits)

lemma prepare_inputs_negative_prompts:
  "''negative_prompts'' \<notin> pipe_signature F \<Longrightarrow>
   fst (prepare_inputs F batch) ''negative_prompts'' =
     map_option PyJson (additional_pipeline_argumenets F ''negative_prompts'')"
  by (auto simp: prepare_inputs_def Let_def map_add_def update_when_apply if_distribR split: option.splits)

lemma prepare_inputs_prompt_embeds:
  "''prompt_embeds'' \<notin> pipe_signature F \<or> \<not> use_prompt_embeds F \<Longrightarrow>
   fst (prepare_inputs F batch) ''prompt_embeds'' =
     map_option PyJson (additional_pipeline_argumenets F ''prompt_embeds'')"
  by (auto simp: prepare_inputs_def Let_def map_add_def update_when_apply if_distribR split: option.splits)

lemma prepare_inputs_prompt:
  "''prompt'' \<notin> pipe_signature F \<or> use_prompt_embeds F \<Longrightarrow>
   fst (prepare_inputs F batch) ''prompt'' =
     map_option PyJson (additional_pipeline_argumenets F ''prompt'')"
  by (auto simp: prepare_inputs_def Let_def map_add_def update_when_apply if_distribR split: option.splits)

lemma prepare_inputs_generator:
  "''generator'' \<in> pipe_signature F \<Longrightarrow>
   fst (prepare_inputs F batch) ''generator'' =
     (case additional_pipeline_argumenets F ''generator'' of
        None \<Rightarrow> Some (PyGenerator (Generator (seed F) 0))
      | Some j \<Rightarrow> Some (PyJson j))"
  by (auto simp: prepare_inputs_def Let_def map_add_def manual_seed_def update_when_apply if_distribR split: option.splits)

lemma prepare_inputs_flow:
  "snd (prepare_inputs F batch) =
     (if ''generator'' \<in> pipe_signature F then F\<lparr>generator := Generator (seed F) 0\<rparr> else F)"
  by (simp add: prepare_inputs_def Let_def manual_seed_def)

lemma fst_prepare_inputs_seed_schedule:
  "fst (prepare_inputs (F\<lparr>seed_schedule := ss\<rparr>) batch) = fst (prepare_inputs F batch)"
  by (simp add: prepare_inputs_def Let_def manual_seed_def cong: if_cong)

lemma prepare_inputs_seed_schedule:
  "prepare_inputs (F\<lparr>seed_schedule := ss\<rparr>) batch =
     (fst (prepare_inputs F batch), (snd (prepare_inputs F batch))\<lparr>seed_schedule := ss\<rparr>)"
  by (rule prod_eqI) (simp_all add: fst_prepare_inputs_seed_schedule prepare_inputs_flow)

lemma create_loop_generator:
  "''generator'' \<in> pipe_signature F \<Longrightarrow> additional_pipeline_argumenets F ''generator'' = None \<Longrightarrow>
   kw \<in> set (create_loop pipe F batches) \<Longrightarrow>
   kw ''generator'' = Some (PyGenerator (Generator (seed F) 0))"
proof (induction batches arbitrary: F)
  case Nil
  then show ?case by simp
next
  case (Cons batch batches)
  obtain kws F1 where p: "prepare_inputs F batch = (kws, F1)"
    by (cases "prepare_inputs F batch")
  let ?F2 = "F1\<lparr>generator := pipe kws (generator F1)\<rparr>"
  from p prepare_inputs_flow [of F batch] Cons.prems(1)
  have F1: "F1 = F\<lparr>generator := Generator (seed F) 0\<rparr>" by simp
  from p prepare_inputs_generator [OF Cons.prems(1), of batch] Cons.prems(2)
  have kws: "kws ''generator'' = Some (PyGenerator (Generator (seed F) 0))" by simp
  from Cons.prems(3) p have "kw = kws \<or> kw \<in> set (create_loop pipe ?F2 batches)"
    by simp
  then show ?case
  proof
    assume "kw = kws"
    with kws show ?thesis by simp
  next
    assume a: "kw \<in> set (create_loop pipe ?F2 batches)"
    have "kw ''generator'' = Some (PyGenerator (Generator (seed ?F2) 0))"
    proof (rule Cons.IH [OF _ _ a])
      show "''generator'' \<in> pipe_signature ?F2" using Cons.prems(1) F1 by simp
      show "additional_pipeline_argumenets ?F2 ''generator'' = None"
        using Cons.prems(2) F1 by simp
    qed
    with F1 show ?thesis by simp
  qed
qed

text \<open>
  C8. When the pipeline accepts only \<open>prompt\<close> and \<open>latents\<close>, the builder
  itself never sets \<open>prompt_embeds\<close>, \<open>image\<close> or \<open>negative_prompts\<close>, whatever the
  batch and whatever is configured: each of these keys is in the result exactly when the
  caller's additional pipeline arguments hold it, and then with the caller's value. The
  builder has no failing branch.
\<close>

theorem argument_builder_omits_unsupported:
  assumes "pipe_signature F = {''prompt'', ''latents''}"
    and "k = ''prompt_embeds'' \<or> k = ''image'' \<or> k = ''negative_prompts''"
  shows "fst (prepare_inputs F batch) k = map_option PyJson (additional_pipeline_argumenets F k)"
proof -
  from assms(1) have "''prompt_embeds'' \<notin> pipe_signature F" "''image'' \<notin> pipe_signature F"
    "''negative_prompts'' \<notin> pipe_signature F" by simp_all
  with assms(2) show ?thesis
    using prepare_inputs_image [of F batch] prepare_inputs_negative_prompts [of F batch]
      prepare_inputs_prompt_embeds [of F batch] by blast
qed

theorem argument_builder_omits_unsupported_witness:
  "pipe_signature example_flow = {''prompt'', ''latents''} \<and>
   fst (prepare_inputs example_flow example_batch) ''image'' = None"
  using argument_builder_omits_unsupported [of example_flow "''image''" example_batch]
  by (simp add: example_flow_def)

theorem argument_builder_override_counterexample:
  "pipe_signature (example_flow\<lparr>additional_pipeline_argumenets := [''image'' \<mapsto> JStr ''cat.png'']\<rparr>)
     = {''prompt'', ''latents''} \<and>
   fst (prepare_inputs
          (example_flow\<lparr>additional_pipeline_argumenets := [''image'' \<mapsto> JStr ''cat.png'']\<rparr>)
          example_batch) ''image'' = Some (PyJson (JStr ''cat.png''))"
  by (simp add: prepare_inputs_def example_flow_def Let_def map_add_def update_when_def)

text \<open>
  C6. In prompt-embedding mode with a pipeline that does not accept
  \<open>prompt_embeds\<close>, the builder raises nothing: it returns the keyword arguments with
  neither \<open>prompt_embeds\<close> nor \<open>prompt\<close> set by the builder (each is present only when
  the additional pipeline arguments hold it).
\<close>

theorem missing_prompt_capability_no_error:
  assumes "use_prompt_embeds F" and "''prompt_embeds'' \<notin> pipe_signature F"
  shows "fst (prepare_inputs F batch) ''prompt_embeds'' =
           map_option PyJson (additional_pipeline_argumenets F ''prompt_embeds'') \<and>
         fst (prepare_inputs F batch) ''prompt'' =
           map_option PyJson (additional_pipeline_argumenets F ''prompt'')"
  using assms prepare_inputs_prompt_embeds [of F batch] prepare_inputs_prompt [of F batch]
  by simp

theorem missing_prompt_capability_no_error_witness:
  "use_prompt_embeds example_flow \<and> ''prompt_embeds'' \<notin> pipe_signature example_flow \<and>
   fst (prepare_inputs example_flow example_batch) ''prompt_embeds'' = None \<and>
   fst (prepare_inputs example_flow example_batch) ''prompt'' = None"
  using missing_prompt_capability_no_error [of example_flow example_batch]
  by (simp add: example_flow_def)

theorem missing_prompt_capability_counterexample:
  "use_prompt_embeds example_flow \<and> pipe_signature example_flow = {''prompt'', ''latents''} \<and>
   fst (prepare_inputs example_flow example_batch) =
     [''num_inference_steps'' \<mapsto> PyInt 50, ''guidance_scale'' \<mapsto> PyFloat 7.5,
      ''latents'' \<mapsto> PyLatents [0, 1]]"
  by (simp add: prepare_inputs_def example_flow_def example_batch_def Let_def update_when_def)

text \<open>
  C10. When the pipeline accepts \<open>generator\<close> and the additional pipeline
  arguments do not override that key, the emitted generator is the flow's own generator
  re-seeded with the master seed: its state does not depend on the state \<open>g\<close> the
  generator was in, the flow's generator is left in that same state, the seed schedule
  has no influence on the keyword arguments, and every pipeline call of a run receives
  the generator in that one state, whatever the calls do to it in between.
\<close>

theorem generator_reseeded_with_master_seed:
  assumes "''generator'' \<in> pipe_signature F"
    and "additional_pipeline_argumenets F ''generator'' = None"
  shows "fst (prepare_inputs F batch) ''generator'' = Some (PyGenerator (manual_seed (seed F) g)) \<and>
         generator (snd (prepare_inputs F batch)) = manual_seed (seed F) g \<and>
         fst (prepare_inputs (F\<lparr>seed_schedule := ss\<rparr>) batch) = fst (prepare_inputs F batch) \<and>
         (\<forall>kw \<in> set (create_loop pipe F batches).
            kw ''generator'' = Some (PyGenerator (manual_seed (seed F) g)))"
proof -
  have "fst (prepare_inputs F batch) ''generator'' = Some (PyGenerator (manual_seed (seed F) g))"
    using assms prepare_inputs_generator [of F batch] by (simp add: manual_seed_def)
  moreover have "generator (snd (prepare_inputs F batch)) = manual_seed (seed F) g"
    using assms(1) by (simp add: prepare_inputs_flow manual_seed_def)
  moreover have "\<forall>kw \<in> set (create_loop pipe F batches).
            kw ''generator'' = Some (PyGenerator (manual_seed (seed F) g))"
    using create_loop_generator [OF assms] by (simp add: manual_seed_def)
  ultimately show ?thesis
    by (simp add: fst_prepare_inputs_seed_schedule)
qed

theorem generator_reseeded_with_master_seed_witness:
  "''generator'' \<in> pipe_signature generator_flow \<and>
   additional_pipeline_argumenets generator_flow ''generator'' = None \<and>
   fst (prepare_inputs generator_flow example_batch) ''generator'' = Some (PyGenerator (Generator 42 0)) \<and>
   generator (snd (prepare_inputs generator_flow example_batch)) = Generator 42 0 \<and>
   map (\<lambda>kw. kw ''generator'')
     (create_loop (\<lambda>kw g. Generator 42 1000) generator_flow [example_batch, example_batch]) =
     [Some (PyGenerator (Generator 42 0)), Some (PyGenerator (Generator 42 0))]"
  using generator_reseeded_with_master_seed
    [where F = generator_flow and batch = example_batch and g = "Generator 0 0"
       and pipe = "\<lambda>kw g. Generator 42 1000" and batches = "[example_batch, example_batch]"]
  by (simp add: generator_flow_def example_flow_def manual_seed_def prepare_inputs_def Let_def
        update_when_def map_add_def)

theorem generator_override_counterexample:
  "''generator'' \<in> pipe_signature (generator_flow\<lparr>additional_pipeline_argumenets := [''generator'' \<mapsto> JNull]\<rparr>) \<and>
   fst (prepare_inputs (generator_flow\<lparr>additional_pipeline_argumenets := [''generator'' \<mapsto> JNull]\<rparr>)
          example_batch) ''generator'' = Some (PyJson JNull)"
  by (simp add: prepare_inputs_def generator_flow_def example_flow_def Let_def map_add_def update_when_def)

section \<open>Properties of the batcher\<close>

lemma consecutive_batches_short: "length xs < b \<Longrightarrow> consecutive_batches b xs = []"
  by (simp add: consecutive_batches_def)

lemma consecutive_batches_append:
  assumes "length c = b" and "0 < b"
  shows "consecutive_batches b (c @ xs) = c # consecutive_batches b xs"
proof -
  have n: "length (c @ xs) div b = Suc (length xs div b)"
    using assms by simp
  have "[0..<Suc (length xs div b)] = 0 # map Suc [0..<length xs div b]"
    by (simp add: upt_conv_Cons map_Suc_upt del: upt_Suc)
  then show ?thesis
    using assms by (simp add: consecutive_batches_def n del: upt_Suc)
qed

lemma byop_batch_loop_batches:
  assumes "0 < b"
    and "\<forall>f \<in> set (pre @ fs). prompts F f = Some (P f) \<and> init_latents F f = Some (L f)"
    and "\<forall>video. frames F = Some video \<longrightarrow> (\<forall>f \<in> set (pre @ fs). f < length video)"
    and "length pre < b"
  shows "byop_batch_loop F (int b) fs (map P pre) (map L pre) (b_images (byop_batch_of F P L pre))
           = (map (byop_batch_of F P L) (consecutive_batches b (pre @ fs)), None)"
  using assms(2-)
proof (induction fs arbitrary: pre)
  case Nil
  then show ?case by (simp add: consecutive_batches_short)
next
  case (Cons f fs)
  let ?pre = "pre @ [f]"
  have P: "prompts F f = Some (P f)" and L: "init_latents F f = Some (L f)"
    using Cons.prems(1) by simp_all
  have img: "(case frames F of None \<Rightarrow> Inr (b_images (byop_batch_of F P L pre))
        | Some video \<Rightarrow> if f < length video
            then Inr (b_images (byop_batch_of F P L pre) @ [video ! f]) else Inl IndexError)
      = Inr (b_images (byop_batch_of F P L ?pre))"
    using Cons.prems(2) by (simp add: byop_batch_of_def split: option.splits)
  have b0: "int b \<noteq> 0" using assms(1) by simp
  have len: "int (length (map P pre @ [P f])) mod int b = 0 \<longleftrightarrow> length ?pre = b"
  proof -
    have "int (length (map P pre @ [P f])) mod int b = int (Suc (length pre) mod b)"
      by (simp add: zmod_int)
    moreover have "Suc (length pre) mod b = 0 \<longleftrightarrow> Suc (length pre) = b"
      using Cons.prems(3) assms(1)
      by (metis Suc_leI le_neq_implies_less mod_less mod_self nat.simps(3))
    ultimately show ?thesis by simp
  qed
  show ?case
  proof (cases "length ?pre = b")
    case True
    have "byop_batch_loop F (int b) fs (map P []) (map L []) (b_images (byop_batch_of F P L []))
            = (map (byop_batch_of F P L) (consecutive_batches b ([] @ fs)), None)"
      using Cons.prems(1,2) assms(1) by (intro Cons.IH) auto
    then have IH: "byop_batch_loop F (int b) fs [] [] [] =
        (map (byop_batch_of F P L) (consecutive_batches b fs), None)"
      by (simp add: byop_batch_of_def split: option.splits)
    have "consecutive_batches b (pre @ f # fs) = ?pre # consecutive_batches b fs"
      using consecutive_batches_append [OF True assms(1), of fs] by simp
    moreover have "\<lparr> b_prompts = map P pre @ [P f], b_init_latents = map L pre @ [L f],
        b_images = b_images (byop_batch_of F P L ?pre) \<rparr> = byop_batch_of F P L ?pre"
      by (simp add: byop_batch_of_def)
    ultimately show ?thesis
      using P L img b0 len True IH by simp
  next
    case False
    then have lt: "length ?pre < b" using Cons.prems(3) by simp
    have "byop_batch_loop F (int b) fs (map P ?pre) (map L ?pre) (b_images (byop_batch_of F P L ?pre))
            = (map (byop_batch_of F P L) (consecutive_batches b (?pre @ fs)), None)"
      using Cons.prems(1,2) lt by (intro Cons.IH) auto
    then show ?thesis
      using P L img b0 len False by simp
  qed
qed

lemma giffusion_batch_loop_batches:
  assumes "0 < b"
    and "\<forall>f \<in> set (pre @ fs). g_text_embeddings G f = Some (T f) \<and>
           g_init_latents G f = Some (L f) \<and> g_seed_schedule G f = Some (S f)"
    and "length pre < b"
  shows "giffusion_batch_loop G (int b) fs (map T pre) (map L pre)
           = (map (giffusion_batch_of T L S) (consecutive_batches b (pre @ fs)), None)"
  using assms(2-)
proof (induction fs arbitrary: pre)
  case Nil
  then show ?case by (simp add: consecutive_batches_short)
next
  case (Cons f fs)
  let ?pre = "pre @ [f]"
  have T: "g_text_embeddings G f = Some (T f)" and L: "g_init_latents G f = Some (L f)"
    and S: "seed_of (g_seed_schedule G) f = Inr (S f)"
    using Cons.prems(1) by (simp_all add: seed_of_def)
  have b0: "int b \<noteq> 0" using assms(1) by simp
  have len: "int (length (map T pre @ [T f])) mod int b = 0 \<longleftrightarrow> length ?pre = b"
  proof -
    have "int (length (map T pre @ [T f])) mod int b = int (Suc (length pre) mod b)"
      by (simp add: zmod_int)
    moreover have "Suc (length pre) mod b = 0 \<longleftrightarrow> Suc (length pre) = b"
      using Cons.prems(2) assms(1)
      by (metis Suc_leI le_neq_implies_less mod_less mod_self nat.simps(3))
    ultimately show ?thesis by simp
  qed
  show ?case
  proof (cases "length ?pre = b")
    case True
    have "giffusion_batch_loop G (int b) fs (map T []) (map L [])
            = (map (giffusion_batch_of T L S) (consecutive_batches b ([] @ fs)), None)"
      using Cons.prems(1) assms(1) by (intro Cons.IH) auto
    then have IH: "giffusion_batch_loop G (int b) fs [] [] =
        (map (giffusion_batch_of T L S) (consecutive_batches b fs), None)"
      by simp
    have "consecutive_batches b (pre @ f # fs) = ?pre # consecutive_batches b fs"
      using consecutive_batches_append [OF True assms(1), of fs] by simp
    moreover have "\<lparr> gb_text_embeddings = map T pre @ [T f], gb_init_latents = map L pre @ [L f],
        gb_generators = [Generator (S f) 0] \<rparr> = giffusion_batch_of T L S ?pre"
      by (simp add: giffusion_batch_of_def)
    ultimately show ?thesis
      using T L S b0 len True IH by simp
  next
    case False
    then have lt: "length ?pre < b" using Cons.prems(2) by simp
    have "giffusion_batch_loop G (int b) fs (map T ?pre) (map L ?pre)
            = (map (giffusion_batch_of T L S) (consecutive_batches b (?pre @ fs)), None)"
      using Cons.prems(1) lt by (intro Cons.IH) auto
    then show ?thesis
      using T L S b0 len False by simp
  qed
qed

text \<open>
  For a batch size \<open>b \<ge> 1\<close> and a frame list whose frames all have timeline entries,
  the batcher of \<open>BYOPFlow\<close> yields exactly \<open>length frame_list div b\<close> batches and ends
  without an exception; batch \<open>k\<close> holds the entries of the \<open>b\<close> consecutive frames
  \<open>frame_list[k*b : (k+1)*b]\<close> in order, so the trailing \<open>length frame_list mod b\<close>
  frames are in no batch. The batcher of \<open>GiffusionFlow\<close> does the same under one more
  condition, that the seed schedule has a seed for the frames of the list.
\<close>

lemma batchers_yield_full_batches:
  assumes "0 < b"
    and "\<forall>f \<in> set frame_list. prompts F f = Some (P f) \<and> init_latents F f = Some (L f)"
    and "\<forall>video. frames F = Some video \<longrightarrow> (\<forall>f \<in> set frame_list. f < length video)"
    and "\<forall>f \<in> set frame_list. g_text_embeddings G f = Some (T f) \<and>
           g_init_latents G f = Some (L' f) \<and> g_seed_schedule G f = Some (S f)"
  shows "byop_batch_generator F frame_list (int b) =
           (map (\<lambda>k. byop_batch_of F P L (take b (drop (k * b) frame_list)))
              [0..<length frame_list div b], None) \<and>
         giffusion_batch_generator G frame_list (int b) =
           (map (\<lambda>k. giffusion_batch_of T L' S (take b (drop (k * b) frame_list)))
              [0..<length frame_list div b], None)"
proof -
  have "byop_batch_loop F (int b) frame_list (map P []) (map L [])
          (b_images (byop_batch_of F P L []))
        = (map (byop_batch_of F P L) (consecutive_batches b ([] @ frame_list)), None)"
    using assms(1-3) by (intro byop_batch_loop_batches) auto
  then have "byop_batch_generator F frame_list (int b) =
      (map (byop_batch_of F P L) (consecutive_batches b frame_list), None)"
    by (simp add: byop_batch_generator_def byop_batch_of_def split: option.splits)
  moreover have "giffusion_batch_loop G (int b) frame_list (map T []) (map L' [])
        = (map (giffusion_batch_of T L' S) (consecutive_batches b ([] @ frame_list)), None)"
    using assms(1,4) by (intro giffusion_batch_loop_batches) auto
  then have "giffusion_batch_generator G frame_list (int b) =
      (map (giffusion_batch_of T L' S) (consecutive_batches b frame_list), None)"
    by (simp add: giffusion_batch_generator_def)
  ultimately show ?thesis
    by (simp add: consecutive_batches_def comp_def)
qed

lemma batchers_yield_full_batches_example:
  "byop_batch_generator example_flow [0, 1, 2, 3, 4, 5, 6, 7, 8, 9] 4 =
     ([\<lparr> b_prompts = [Text ''A'', Text ''A'', Text ''A'', Text ''A''],
          b_init_latents = [0, 1, 2, 3], b_images = [] \<rparr>,
       \<lparr> b_prompts = [Text ''A'', Text ''A'', Text ''A'', Text ''A''],
          b_init_latents = [4, 5, 6, 7], b_images = [] \<rparr>], None) \<and>
   giffusion_batch_generator example_giffusion_flow [0, 1, 2, 3, 4, 5, 6, 7, 8, 9] 4 =
     ([\<lparr> gb_text_embeddings = [0, 1 / 2, 1, 3 / 2], gb_init_latents = [0, 1, 2, 3],
          gb_generators = [Generator 103 0] \<rparr>,
       \<lparr> gb_text_embeddings = [2, 5 / 2, 3, 7 / 2], gb_init_latents = [4, 5, 6, 7],
          gb_generators = [Generator 107 0] \<rparr>], None)"
  using batchers_yield_full_batches
    [where b = 4 and frame_list = "[0, 1, 2, 3, 4, 5, 6, 7, 8, 9]" and F = example_flow
       and P = "\<lambda>f. Text ''A''" and L = real and G = example_giffusion_flow
       and T = "\<lambda>f. real f / 2" and L' = real and S = "\<lambda>f. int f + 100"]
  by (simp add: example_flow_def example_giffusion_flow_def byop_batch_of_def
        giffusion_batch_of_def upt_rec)

section \<open>Coverage of the seed schedules\<close>

lemma byop_seed_schedule_complete:
  "length (fst (byop_seed_schedule R s n g)) = n \<and>
   (\<forall>i < n. 0 \<le> fst (byop_seed_schedule R s n g) ! i \<and>
             fst (byop_seed_schedule R s n g) ! i < 2 ^ 64)"
  using randint_list_range [of _ R n "random_seed R s g"]
  by (simp add: byop_seed_schedule_def length_randint_list)

lemma giffusion_seed_schedule_dom:
  "dom (fst (giffusion_seed_schedule R s key_frames g)) = fst ` set key_frames"
  by (simp add: giffusion_seed_schedule_def dom_randint_dict)

text \<open>
  C3. The seed schedule of \<open>BYOPFlow\<close> has one seed in \<open>[0, 2^64 - 1]\<close> for every
  frame index below \<open>max_frames\<close>. The seed schedule of \<open>GiffusionFlow\<close> has seeds for
  the key frames only: for the key frames 0 and 5, \<open>max_frames\<close> is 6, the schedule of
  \<open>BYOPFlow\<close> has 6 seeds, that of \<open>GiffusionFlow\<close> has the keys 0 and 5, the lookup of
  frame 1 fails, and \<open>GiffusionFlow.batch_generator\<close> with batch size 1 ends with
  \<open>KeyError\<close> at frame 1.
\<close>

theorem giffusion_seed_schedule_misses_frames:
  "max_frames_of [(0, ''A''), (5, ''B'')] = Inr 6 \<and>
   length (fst (byop_seed_schedule R s 6 g)) = 6 \<and>
   dom (fst (giffusion_seed_schedule R s [(0, ''A''), (5, ''B'')] g)) = {0, 5} \<and>
   fst (giffusion_seed_schedule R s [(0, ''A''), (5, ''B'')] g) 1 = None \<and>
   snd (giffusion_batch_generator
          (example_giffusion_flow
             \<lparr>g_seed_schedule := fst (giffusion_seed_schedule R s [(0, ''A''), (5, ''B'')] g)\<rparr>)
          [0, 1, 2, 3, 4, 5] 1) = Some (KeyError 1)"
proof -
  let ?m = "fst (giffusion_seed_schedule R s [(0, ''A''), (5, ''B'')] g)"
  have d: "dom ?m = {0, 5}"
    by (simp add: giffusion_seed_schedule_dom)
  then have "0 \<in> dom ?m" and "1 \<notin> dom ?m" by simp_all
  then obtain x where x: "?m 0 = Some x" and n: "?m 1 = None" by auto
  have "snd (giffusion_batch_generator (example_giffusion_flow\<lparr>g_seed_schedule := ?m\<rparr>)
          [0, 1, 2, 3, 4, 5] 1) = Some (KeyError 1)"
    using x n by (simp add: giffusion_batch_generator_def example_giffusion_flow_def seed_of_def)
  with d n show ?thesis
    by (simp add: max_frames_of_def byop_seed_schedule_complete)
qed

text \<open>
  C7. With batch size 4 and the ten frames 0 to 9 the batcher of \<open>BYOPFlow\<close> yields
  exactly two batches, of the frames 0-3 and 4-7, and the frames 8 and 9 are in no batch.
  The batcher of \<open>GiffusionFlow\<close> also looks up the seed of the last frame of every batch
  in the seed schedule, which the constructor builds for the key frames only: with the key
  frames 0 and 9 (\<open>max_frames\<close> is 10) and timelines that cover the frames 0 to 9, it
  yields no batch and ends with \<open>KeyError\<close> at frame 3.
\<close>

theorem giffusion_batcher_key_error:
  "byop_batch_generator example_flow [0, 1, 2, 3, 4, 5, 6, 7, 8, 9] 4 =
     ([\<lparr> b_prompts = [Text ''A'', Text ''A'', Text ''A'', Text ''A''],
          b_init_latents = [0, 1, 2, 3], b_images = [] \<rparr>,
       \<lparr> b_prompts = [Text ''A'', Text ''A'', Text ''A'', Text ''A''],
          b_init_latents = [4, 5, 6, 7], b_images = [] \<rparr>], None) \<and>
   max_frames_of [(0, ''A''), (9, ''B'')] = Inr 10 \<and>
   dom (fst (giffusion_seed_schedule R s [(0, ''A''), (9, ''B'')] g)) = {0, 9} \<and>
   giffusion_batch_generator
     (example_giffusion_flow
        \<lparr>g_seed_schedule := fst (giffusion_seed_schedule R s [(0, ''A''), (9, ''B'')] g)\<rparr>)
     [0, 1, 2, 3, 4, 5, 6, 7, 8, 9] 4 = ([], Some (KeyError 3))"
proof -
  let ?m = "fst (giffusion_seed_schedule R s [(0, ''A''), (9, ''B'')] g)"
  have d: "dom ?m = {0, 9}"
    by (simp add: giffusion_seed_schedule_dom)
  then have "3 \<notin> dom ?m" by simp
  then have n: "?m 3 = None" by auto
  have "giffusion_batch_generator (example_giffusion_flow\<lparr>g_seed_schedule := ?m\<rparr>)
          [0, 1, 2, 3, 4, 5, 6, 7, 8, 9] 4 = ([], Some (KeyError 3))"
    using n by (simp add: giffusion_batch_generator_def example_giffusion_flow_def seed_of_def)
  moreover have "byop_batch_generator example_flow [0, 1, 2, 3, 4, 5, 6, 7, 8, 9] 4 =
     ([\<lparr> b_prompts = [Text ''A'', Text ''A'', Text ''A'', Text ''A''],
          b_init_latents = [0, 1, 2, 3], b_images = [] \<rparr>,
       \<lparr> b_prompts = [Text ''A'', Text ''A'', Text ''A'', Text ''A''],
          b_init_latents = [4, 5, 6, 7], b_images = [] \<rparr>], None)"
    by (simp add: byop_batch_generator_def example_flow_def)
  ultimately show ?thesis
    using d by (simp add: max_frames_of_def)
qed

section \<open>Properties of the forward fill\<close>

lemma series_set_upt:
  "m \<le> k \<Longrightarrow> k < n \<Longrightarrow>
   series_set (map (\<lambda>a. (a, v a)) [m..<n]) k p = map (\<lambda>a. (a, (v(k := Some p)) a)) [m..<n]"
proof (induction "k - m" arbitrary: m)
  case 0
  then have m: "m = k" by simp
  have "map (\<lambda>a. (a, v a)) [Suc k..<n] = map (\<lambda>a. (a, (v(k := Some p)) a)) [Suc k..<n]"
    by (rule map_cong) auto
  with 0 m show ?case by (simp add: upt_conv_Cons)
next
  case (Suc d)
  then have lt: "m < k" "Suc m \<le> k" "d = k - Suc m" by simp_all
  with Suc.prems have mn: "m < n" by simp
  from Suc.hyps(1) [OF lt(3) lt(2) Suc.prems(2)] lt(1) mn show ?case
    by (simp add: upt_conv_Cons)
qed

lemma set_key_frames_upt:
  "\<forall>kf \<in> set key_frames. fst kf < n \<Longrightarrow>
   set_key_frames (map (\<lambda>a. (a, v a)) [0..<n]) key_frames =
     map (\<lambda>a. (a, store_key_frames key_frames v a)) [0..<n]"
proof (induction key_frames arbitrary: v)
  case Nil
  then show ?case by simp
next
  case (Cons kf key_frames)
  obtain k p where kf: "kf = (k, p)" by (cases kf)
  with Cons.prems have "k < n" by simp
  then have ss: "series_set (map (\<lambda>a. (a, v a)) [0..<n]) k p =
      map (\<lambda>a. (a, (v(k := Some p)) a)) [0..<n]"
    by (rule series_set_upt [OF le0])
  from Cons.prems have "\<forall>kf \<in> set key_frames. fst kf < n" by simp
  from Cons.IH [OF this, of "v(k := Some p)"] show ?case
    by (simp only: kf set_key_frames.simps store_key_frames.simps ss)
qed

lemma store_key_frames_other:
  "a \<notin> fst ` set key_frames \<Longrightarrow> store_key_frames key_frames v a = v a"
  by (induction key_frames arbitrary: v) auto

lemma store_key_frames_key:
  "distinct (map fst key_frames) \<Longrightarrow> (k, p) \<in> set key_frames \<Longrightarrow>
   store_key_frames key_frames v k = Some p"
proof (induction key_frames arbitrary: v)
  case Nil
  then show ?case by simp
next
  case (Cons kf key_frames)
  obtain k' p' where kf: "kf = (k', p')" by (cases kf)
  show ?case
  proof (cases "(k, p) = kf")
    case True
    with Cons.prems(1) kf have "k \<notin> fst ` set key_frames" by auto
    with True kf show ?thesis by (simp add: store_key_frames_other)
  next
    case False
    with Cons kf show ?thesis by auto
  qed
qed

lemma length_ffill_from: "length (ffill_from prev xs) = length xs"
  by (induction prev xs rule: ffill_from.induct) simp_all

lemma ffill_from_None:
  "i < length xs \<Longrightarrow> \<forall>l \<le> i. xs ! l = None \<Longrightarrow> ffill_from prev xs ! i = prev"
proof (induction prev xs arbitrary: i rule: ffill_from.induct)
  case (1 prev)
  then show ?case by simp
next
  case (2 prev xs)
  show ?case
  proof (cases i)
    case 0
    then show ?thesis by simp
  next
    case (Suc i')
    with 2 have "i' < length xs" "\<forall>l \<le> i'. xs ! l = None" by auto
    with 2 Suc show ?thesis by simp
  qed
next
  case (3 prev v xs)
  then have "(Some v # xs) ! 0 = None" by blast
  then show ?case by simp
qed

lemma ffill_from_Some:
  "j \<le> i \<Longrightarrow> i < length xs \<Longrightarrow> xs ! j = Some p \<Longrightarrow>
   \<forall>l. j < l \<and> l \<le> i \<longrightarrow> xs ! l = None \<Longrightarrow> ffill_from prev xs ! i = Some p"
proof (induction xs arbitrary: prev i j)
  case Nil
  then show ?case by simp
next
  case (Cons x xs)
  show ?case
  proof (cases j)
    case 0
    with Cons.prems have x: "x = Some p" by simp
    show ?thesis
    proof (cases i)
      case 0
      with x show ?thesis by simp
    next
      case (Suc i')
      have "\<forall>l \<le> i'. xs ! l = None"
      proof (intro allI impI)
        fix l assume "l \<le> i'"
        with Suc \<open>j = 0\<close> have "j < Suc l \<and> Suc l \<le> i" by simp
        with Cons.prems(4) have "(x # xs) ! Suc l = None" by blast
        then show "xs ! l = None" by simp
      qed
      moreover from Cons.prems(2) Suc have "i' < length xs" by simp
      ultimately have "ffill_from (Some p) xs ! i' = Some p"
        by (rule ffill_from_None [rotated])
      with x Suc show ?thesis by simp
    qed
  next
    case (Suc j')
    with Cons.prems(1) obtain i' where i: "i = Suc i'" by (cases i) auto
    have "\<forall>l. j' < l \<and> l \<le> i' \<longrightarrow> xs ! l = None"
    proof (intro allI impI)
      fix l assume "j' < l \<and> l \<le> i'"
      with Suc i have "j < Suc l \<and> Suc l \<le> i" by simp
      with Cons.prems(4) have "(x # xs) ! Suc l = None" by blast
      then show "xs ! l = None" by simp
    qed
    with Cons.prems Suc i have r: "\<And>prev. ffill_from prev xs ! i' = Some p"
      by (intro Cons.IH [of j' i']) simp_all
    show ?thesis
      using r i by (cases x) simp_all
  qed
qed

text \<open>
  C9. In raw-prompt mode every frame resolves to the prompt of the nearest key frame at or
  before it, with no interpolation: when the key frames have distinct indices, all below
  \<open>max_frames\<close>, and \<open>(k, p)\<close> is the key frame with the largest index \<open>k \<le> f\<close>, then
  \<open>get_prompts\<close> maps the frame \<open>f\<close> to \<open>p\<close>. For the key frames 0: A and 5: B the
  frames 0 to 4 resolve to A and frame 5 to B.
\<close>

theorem forward_fill_nearest_preceding:
  assumes "distinct (map fst key_frames)"
    and "\<forall>kf \<in> set key_frames. fst kf < max_frames F"
    and "(k, p) \<in> set key_frames"
    and "k \<le> f" and "f < max_frames F"
    and "\<forall>kf \<in> set key_frames. \<not> (k < fst kf \<and> fst kf \<le> f)"
  shows "get_prompts F key_frames f = Some (Text p)"
proof -
  let ?n = "max_frames F"
  let ?v = "store_key_frames key_frames (\<lambda>a. None)"
  let ?xs = "map ?v [0..<?n]"
  have series: "set_key_frames (map (\<lambda>a. (a, None)) [0..<?n]) key_frames =
      map (\<lambda>a. (a, ?v a)) [0..<?n]"
    using set_key_frames_upt [OF assms(2), of "\<lambda>a. None"] by simp
  have vals: "map snd (set_key_frames (map (\<lambda>a. (a, None)) [0..<?n]) key_frames) = ?xs"
    by (simp add: series comp_def)
  have len: "length (set_key_frames (map (\<lambda>a. (a, None)) [0..<?n]) key_frames) = ?n"
    by (simp add: series)
  have k: "?xs ! k = Some p"
    using assms(1,3,4,5) by (simp add: store_key_frames_key)
  have none: "\<forall>l. k < l \<and> l \<le> f \<longrightarrow> ?xs ! l = None"
  proof (intro allI impI)
    fix l assume l: "k < l \<and> l \<le> f"
    with assms(6) have "l \<notin> fst ` set key_frames" by auto
    then have "?v l = None" by (simp add: store_key_frames_other)
    with l assms(5) show "?xs ! l = None" by simp
  qed
  have "ffill_from None ?xs ! f = Some p"
    using assms(4,5) k none by (intro ffill_from_Some [of k f]) simp_all
  then show ?thesis
    using assms(5) by (simp add: get_prompts_def vals len ffill_def length_ffill_from
        prompt_of_def Let_def)
qed

theorem forward_fill_nearest_preceding_witness:
  "get_prompts (example_flow\<lparr>max_frames := 6\<rparr>) [(0, ''A''), (5, ''B'')] 0 = Some (Text ''A'') \<and>
   get_prompts (example_flow\<lparr>max_frames := 6\<rparr>) [(0, ''A''), (5, ''B'')] 1 = Some (Text ''A'') \<and>
   get_prompts (example_flow\<lparr>max_frames := 6\<rparr>) [(0, ''A''), (5, ''B'')] 2 = Some (Text ''A'') \<and>
   get_prompts (example_flow\<lparr>max_frames := 6\<rparr>) [(0, ''A''), (5, ''B'')] 3 = Some (Text ''A'') \<and>
   get_prompts (example_flow\<lparr>max_frames := 6\<rparr>) [(0, ''A''), (5, ''B'')] 4 = Some (Text ''A'') \<and>
   get_prompts (example_flow\<lparr>max_frames := 6\<rparr>) [(0, ''A''), (5, ''B'')] 5 = Some (Text ''B'')"
  using forward_fill_nearest_preceding
    [where F = "example_flow\<lparr>max_frames := 6\<rparr>" and key_frames = "[(0, ''A''), (5, ''B'')]"
       and k = 0 and p = "''A''"]
    forward_fill_nearest_preceding
    [where F = "example_flow\<lparr>max_frames := 6\<rparr>" and key_frames = "[(0, ''A''), (5, ''B'')]"
       and k = 5 and p = "''B''" and f = 5]
  by simp

section \<open>Properties of the array functions\<close>

lemma linspace_nat:
  "linspace a b (int n) = Inr (map (\<lambda>i. a + real i * ((b - a) / real (n - 1))) [0..<n])"
  by (simp add: linspace_def)

lemma linspace_negative: "num < 0 \<Longrightarrow> linspace a b num = Inl ValueError"
  by (simp add: linspace_def)

lemma linspace_point_bounds:
  assumes "a \<le> b" and "i < n"
  shows "a \<le> a + real i * ((b - a) / real (n - 1))"
    and "a + real i * ((b - a) / real (n - 1)) \<le> b"
proof -
  have s: "0 \<le> (b - a) / real (n - 1)" using assms(1) by simp
  then have "0 \<le> real i * ((b - a) / real (n - 1))"
    by (intro mult_nonneg_nonneg) simp_all
  then show "a \<le> a + real i * ((b - a) / real (n - 1))" by simp
  show "a + real i * ((b - a) / real (n - 1)) \<le> b"
  proof (cases "n = 1")
    case True
    with assms show ?thesis by simp
  next
    case False
    with assms(2) have n: "0 < real (n - 1)" by simp
    have "real i \<le> real (n - 1)" using assms(2) by simp
    then have "real i * ((b - a) / real (n - 1)) \<le> real (n - 1) * ((b - a) / real (n - 1))"
      using s by (rule mult_right_mono)
    also have "\<dots> = b - a" using n by simp
    finally show ?thesis by simp
  qed
qed

lemma linspace_point_mono:
  assumes "a \<le> b" and "i \<le> j"
  shows "a + real i * ((b - a) / real (n - 1)) \<le> a + real j * ((b - a) / real (n - 1))"
proof -
  have "0 \<le> (b - a) / real (n - 1)" using assms(1) by simp
  moreover have "real i \<le> real j" using assms(2) by simp
  ultimately have "real i * ((b - a) / real (n - 1)) \<le> real j * ((b - a) / real (n - 1))"
    by (rule mult_right_mono [rotated])
  then show ?thesis by simp
qed

lemma linspace_point_strict:
  assumes "a < b" and "i < j" and "2 \<le> n"
  shows "a + real i * ((b - a) / real (n - 1)) < a + real j * ((b - a) / real (n - 1))"
proof -
  have "0 < (b - a) / real (n - 1)" using assms(1,3) by simp
  moreover have "real i < real j" using assms(2) by simp
  ultimately have "real i * ((b - a) / real (n - 1)) < real j * ((b - a) / real (n - 1))"
    by (rule mult_strict_right_mono [rotated])
  then show ?thesis by simp
qed

lemma linspace_props:
  assumes "linspace a b (int n) = Inr xs" and "a \<le> b"
  shows "length xs = n"
    and "sorted xs"
    and "\<forall>x \<in> set xs. a \<le> x \<and> x \<le> b"
    and "0 < n \<Longrightarrow> hd xs = a"
    and "2 \<le> n \<Longrightarrow> last xs = b"
    and "a < b \<Longrightarrow> 2 \<le> n \<Longrightarrow> sorted_wrt (<) xs"
proof -
  let ?f = "\<lambda>i. a + real i * ((b - a) / real (n - 1))"
  have xs: "xs = map ?f [0..<n]"
    using assms(1) by (simp add: linspace_nat)
  show "length xs = n" by (simp add: xs)
  show "sorted xs"
    unfolding xs sorted_map
  proof (rule sorted_wrt_mono_rel [OF _ sorted_upt])
    fix x y :: nat
    assume "x \<in> set [0..<n]" "y \<in> set [0..<n]" and "x \<le> y"
    then show "?f x \<le> ?f y" by (intro linspace_point_mono [OF assms(2)])
  qed
  show "\<forall>x \<in> set xs. a \<le> x \<and> x \<le> b"
    using linspace_point_bounds [OF assms(2)] by (auto simp: xs)
  show "hd xs = a" if "0 < n"
    using that by (simp add: xs hd_map)
  show "last xs = b" if "2 \<le> n"
  proof -
    from that have "last xs = ?f (n - 1)" by (simp add: xs last_map)
    also have "\<dots> = b" using that by simp
    finally show ?thesis .
  qed
  show "sorted_wrt (<) xs" if "a < b" "2 \<le> n"
    unfolding xs sorted_wrt_map
  proof (rule sorted_wrt_mono_rel [OF _ sorted_wrt_upt])
    fix x y :: nat
    assume "x \<in> set [0..<n]" "y \<in> set [0..<n]" and "x < y"
    then show "?f x < ?f y" by (intro linspace_point_strict [OF that(1) _ that(2)])
  qed
qed

lemma length_cumsum_from: "length (cumsum_from acc xs) = length xs"
  by (induction xs arbitrary: acc) simp_all

lemma cumsum_from_lower:
  "\<forall>x \<in> set xs. 0 \<le> x \<Longrightarrow> y \<in> set (cumsum_from acc xs) \<Longrightarrow> acc \<le> y"
proof (induction xs arbitrary: acc)
  case Nil
  then show ?case by simp
next
  case (Cons x xs)
  from Cons.prems(2) have "y = acc + x \<or> y \<in> set (cumsum_from (acc + x) xs)" by simp
  then show ?case
  proof
    assume "y = acc + x"
    with Cons.prems(1) show ?thesis by simp
  next
    assume "y \<in> set (cumsum_from (acc + x) xs)"
    with Cons.IH [of "acc + x"] Cons.prems(1) have "acc + x \<le> y" by simp
    with Cons.prems(1) show ?thesis by simp
  qed
qed

lemma sorted_cumsum_from:
  "\<forall>x \<in> set xs. 0 \<le> x \<Longrightarrow> sorted (cumsum_from acc xs)"
proof (induction xs arbitrary: acc)
  case Nil
  then show ?case by simp
next
  case (Cons x xs)
  then have "sorted (cumsum_from (acc + x) xs)" by simp
  moreover have "\<forall>y \<in> set (cumsum_from (acc + x) xs). acc + x \<le> y"
    using cumsum_from_lower [of xs _ "acc + x"] Cons.prems by auto
  ultimately show ?case by simp
qed

lemma last_cumsum_from:
  "xs \<noteq> [] \<Longrightarrow> last (cumsum_from acc xs) = acc + sum_list xs"
proof (induction xs arbitrary: acc)
  case Nil
  then show ?case by simp
next
  case (Cons x xs)
  show ?case
  proof (cases "xs = []")
    case True
    then show ?thesis by simp
  next
    case False
    then have "cumsum_from (acc + x) xs \<noteq> []"
      using length_cumsum_from [of "acc + x" xs] by auto
    with Cons.IH [OF False, of "acc + x"] show ?thesis by simp
  qed
qed

lemma hd_cumsum_from: "xs \<noteq> [] \<Longrightarrow> hd (cumsum_from acc xs) = acc + hd xs"
  by (cases xs) simp_all

lemma segment_bounds:
  fixes x0 x1 y0 y1 x :: real
  assumes "x0 < x1" and "y0 \<le> y1" and "x0 \<le> x" and "x \<le> x1"
  shows "y0 \<le> y0 + ((y1 - y0) / (x1 - x0)) * (x - x0)"
    and "y0 + ((y1 - y0) / (x1 - x0)) * (x - x0) \<le> y1"
proof -
  have s: "0 \<le> (y1 - y0) / (x1 - x0)" using assms(1,2) by simp
  with assms(3) have "0 \<le> ((y1 - y0) / (x1 - x0)) * (x - x0)"
    by (intro mult_nonneg_nonneg) simp_all
  then show "y0 \<le> y0 + ((y1 - y0) / (x1 - x0)) * (x - x0)" by simp
  have "((y1 - y0) / (x1 - x0)) * (x - x0) \<le> ((y1 - y0) / (x1 - x0)) * (x1 - x0)"
    using s assms(4) by (intro mult_left_mono) simp_all
  also have "\<dots> = y1 - y0" using assms(1) by simp
  finally show "y0 + ((y1 - y0) / (x1 - x0)) * (x - x0) \<le> y1" by simp
qed

lemma segment_mono:
  fixes x0 x1 y0 y1 x x' :: real
  assumes "x0 < x1" and "y0 \<le> y1" and "x \<le> x'"
  shows "y0 + ((y1 - y0) / (x1 - x0)) * (x - x0) \<le> y0 + ((y1 - y0) / (x1 - x0)) * (x' - x0)"
proof -
  have "0 \<le> (y1 - y0) / (x1 - x0)" using assms(1,2) by simp
  then have "((y1 - y0) / (x1 - x0)) * (x - x0) \<le> ((y1 - y0) / (x1 - x0)) * (x' - x0)"
    using assms(3) by (intro mult_left_mono) simp_all
  then show ?thesis by simp
qed

lemma sorted_hd_le_last: "sorted (y # ys) \<Longrightarrow> y \<le> last (y # ys)"
  by (cases "ys = []") auto

lemma interp_at_bounds:
  "sorted_wrt (<) xp \<Longrightarrow> sorted fp \<Longrightarrow> length xp = length fp \<Longrightarrow> fp \<noteq> [] \<Longrightarrow>
   hd fp \<le> interp_at x xp fp \<and> interp_at x xp fp \<le> last fp"
proof (induction xp arbitrary: fp)
  case Nil
  then show ?case by simp
next
  case (Cons x0 xp)
  then obtain y0 fp' where fp: "fp = y0 # fp'" by (cases fp) auto
  show ?case
  proof (cases xp)
    case Nil
    with Cons.prems fp show ?thesis by simp
  next
    case (Cons x1 xp')
    with Cons.prems(3) fp obtain y1 fp'' where fp': "fp' = y1 # fp''" by (cases fp') auto
    from Cons.prems(1) Cons have x01: "x0 < x1" by simp
    from Cons.prems(2) fp fp' have y01: "y0 \<le> y1" by simp
    have y0l: "y0 \<le> last fp" using Cons.prems(2) fp sorted_hd_le_last by blast
    have y1l: "y1 \<le> last fp"
      using Cons.prems(2) fp fp' sorted_hd_le_last [of y1 fp''] by simp
    have IH: "y1 \<le> interp_at x (x1 # xp') (y1 # fp'') \<and>
        interp_at x (x1 # xp') (y1 # fp'') \<le> last fp"
      using Cons.IH [of "y1 # fp''"] Cons.prems Cons fp fp' by simp
    consider "x \<le> x0" | "x0 < x" "x < x1" | "x1 \<le> x" by linarith
    then show ?thesis
    proof cases
      case 1
      with Cons fp fp' y0l show ?thesis by simp
    next
      case 2
      with segment_bounds [OF x01 y01, of x] y1l Cons fp fp' show ?thesis by simp
    next
      case 3
      with x01 IH y01 Cons fp fp' show ?thesis by simp
    qed
  qed
qed

lemma interp_at_left:
  "length xp = length fp \<Longrightarrow> fp \<noteq> [] \<Longrightarrow> x \<le> hd xp \<Longrightarrow> interp_at x xp fp = hd fp"
proof -
  assume a: "length xp = length fp" "fp \<noteq> []" "x \<le> hd xp"
  then obtain x0 xp' y0 fp' where "xp = x0 # xp'" "fp = y0 # fp'"
    by (cases xp; cases fp) auto
  with a show ?thesis by (cases xp'; cases fp') simp_all
qed

lemma interp_at_right:
  "sorted_wrt (<) xp \<Longrightarrow> length xp = length fp \<Longrightarrow> fp \<noteq> [] \<Longrightarrow> last xp \<le> x \<Longrightarrow>
   interp_at x xp fp = last fp"
proof (induction xp arbitrary: fp)
  case Nil
  then show ?case by simp
next
  case (Cons x0 xp)
  then obtain y0 fp' where fp: "fp = y0 # fp'" by (cases fp) auto
  show ?case
  proof (cases xp)
    case Nil
    with Cons.prems fp show ?thesis by simp
  next
    case (Cons x1 xp')
    with Cons.prems(2) fp obtain y1 fp'' where fp': "fp' = y1 # fp''" by (cases fp') auto
    from Cons.prems(1) Cons have "x0 < x1" "\<forall>y \<in> set xp'. x1 < y" by simp_all
    then have "xp' \<noteq> [] \<Longrightarrow> x1 < last xp'"
      using last_in_set by blast
    then have "x1 \<le> last (x1 # xp')" by (cases "xp' = []") auto
    with Cons.prems(4) Cons have x: "x1 \<le> x" by simp
    with \<open>x0 < x1\<close> have "\<not> x \<le> x0" "\<not> x < x1" by simp_all
    moreover have "interp_at x (x1 # xp') (y1 # fp'') = last (y1 # fp'')"
      using Cons.IH [of "y1 # fp''"] Cons.prems Cons fp fp' by simp
    ultimately show ?thesis using Cons fp fp' by simp
  qed
qed

lemma interp_at_mono:
  "sorted_wrt (<) xp \<Longrightarrow> sorted fp \<Longrightarrow> length xp = length fp \<Longrightarrow> fp \<noteq> [] \<Longrightarrow> x \<le> x' \<Longrightarrow>
   interp_at x xp fp \<le> interp_at x' xp fp"
proof (induction xp arbitrary: fp)
  case Nil
  then show ?case by simp
next
  case (Cons x0 xp)
  then obtain y0 fp' where fp: "fp = y0 # fp'" by (cases fp) auto
  show ?case
  proof (cases xp)
    case Nil
    with Cons.prems fp show ?thesis by simp
  next
    case (Cons x1 xp')
    with Cons.prems(3) fp obtain y1 fp'' where fp': "fp' = y1 # fp''" by (cases fp') auto
    from Cons.prems(1) Cons have x01: "x0 < x1" by simp
    from Cons.prems(2) fp fp' have y01: "y0 \<le> y1" by simp
    have tl: "sorted_wrt (<) (x1 # xp')" "sorted (y1 # fp'')" "length (x1 # xp') = length (y1 # fp'')"
      using Cons.prems Cons fp fp' by simp_all
    have lower: "\<And>z. y1 \<le> interp_at z (x1 # xp') (y1 # fp'')"
      using interp_at_bounds [OF tl] by simp
    have whole: "\<And>z. y0 \<le> interp_at z (x0 # x1 # xp') (y0 # y1 # fp'')"
      using interp_at_bounds [OF Cons.prems(1-4)] Cons fp fp' by simp
    have IH: "interp_at x (x1 # xp') (y1 # fp'') \<le> interp_at x' (x1 # xp') (y1 # fp'')"
      using Cons.IH [of "y1 # fp''"] tl Cons.prems(5) Cons by simp
    consider "x \<le> x0" | "x0 < x" "x' < x1" | "x0 < x" "x < x1" "x1 \<le> x'" | "x1 \<le> x"
      by linarith
    then show ?thesis
    proof cases
      case 1
      with whole [of x'] Cons fp fp' show ?thesis by simp
    next
      case 2
      with Cons.prems(5) segment_mono [OF x01 y01 Cons.prems(5)] Cons fp fp' show ?thesis by simp
    next
      case 3
      have "y0 + ((y1 - y0) / (x1 - x0)) * (x - x0) \<le> y1"
        using segment_bounds(2) [OF x01 y01, of x] 3 by simp
      also have "y1 \<le> interp_at x' (x1 # xp') (y1 # fp'')" by (rule lower)
      finally show ?thesis using 3 x01 Cons fp fp' by simp
    next
      case 4
      with Cons.prems(5) x01 IH Cons fp fp' show ?thesis by simp
    qed
  qed
qed

section \<open>Properties of the interpolation scheduler\<close>

lemma uniform_schedule_props:
  assumes "start_frame \<le> end_frame"
  shows "\<exists>fr. get_interpolation_schedule onset start_frame end_frame fps' None sr' = Inr (map Finite fr) \<and>
           length fr = end_frame - start_frame + 1 \<and>
           (\<forall>x \<in> set fr. 0 \<le> x \<and> x \<le> 1) \<and> sorted fr \<and> hd fr = 0 \<and>
           (start_frame < end_frame \<longrightarrow> last fr = 1) \<and>
           (start_frame = end_frame \<longrightarrow> fr = [0])"
proof -
  let ?n = "end_frame - start_frame + 1"
  have num: "int end_frame - int start_frame + 1 = int ?n"
    using assms by simp
  obtain fr where fr: "linspace 0 1 (int ?n) = Inr fr"
    using linspace_nat [of 0 1 ?n] by blast
  have le: "(0::real) \<le> 1" by simp
  note p = linspace_props [OF fr le]
  have "start_frame = end_frame \<Longrightarrow> fr = [0]"
    using fr linspace_nat [of 0 1 1] by simp
  moreover have "start_frame < end_frame \<Longrightarrow> last fr = 1"
    using p(5) by simp
  moreover have "hd fr = 0" using p(4) by simp
  moreover have "get_interpolation_schedule onset start_frame end_frame fps' None sr' =
      Inr (map Finite fr)"
    unfolding get_interpolation_schedule_def num using fr by simp
  ultimately show ?thesis
    using p(1,2,3) by blast
qed

lemma schedule_from_onset_props:
  assumes "env \<noteq> []" and "\<forall>x \<in> set env. 0 \<le> x" and "0 < sum_list env"
  shows "\<exists>fr. schedule_from_onset env (int n) = Inr (map Finite fr) \<and>
           length fr = n \<and>
           (\<forall>x \<in> set fr. 0 \<le> x \<and> x \<le> 1) \<and> sorted fr \<and>
           (0 < n \<longrightarrow> hd fr = hd env / sum_list env) \<and>
           (2 \<le> n \<longrightarrow> last fr = 1)"
proof -
  let ?L = "length env"
  let ?T = "sum_list env"
  let ?ys = "cumsum env"
  let ?fp = "map (\<lambda>y. y / last ?ys) ?ys"
  have L: "0 < ?L" using assms(1) by simp
  have len_ys: "length ?ys = ?L" by (simp add: cumsum_def length_cumsum_from)
  then have ys_ne: "?ys \<noteq> []" using assms(1) by auto
  have last_ys: "last ?ys = ?T"
    using assms(1) by (simp add: cumsum_def last_cumsum_from)
  have sorted_ys: "sorted ?ys"
    using assms(2) by (simp add: cumsum_def sorted_cumsum_from)
  have hd_ys: "hd ?ys = hd env"
    using assms(1) by (simp add: cumsum_def hd_cumsum_from)
  obtain xp where xp: "linspace 0 (real ?L) (int ?L) = Inr xp"
    by (simp add: linspace_nat)
  have le: "(0::real) \<le> real ?L" by simp
  note px = linspace_props [OF xp le]
  have xp_ne: "xp \<noteq> []" using px(1) L by auto
  have strict: "sorted_wrt (<) xp"
  proof (cases "2 \<le> ?L")
    case True
    with px(6) L show ?thesis by simp
  next
    case False
    with px(1) have "length xp \<le> 1" by simp
    then show ?thesis by (rule sorted_wrt01)
  qed
  have hd_xp: "hd xp = 0" using px(4) L by simp
  have last_xp: "last xp \<le> real ?L"
    using px(3) xp_ne last_in_set by blast
  obtain rs where rs: "linspace 0 (real (length ?ys)) (int n) = Inr rs"
    by (simp add: linspace_nat)
  have le': "(0::real) \<le> real (length ?ys)" by simp
  note pr = linspace_props [OF rs le']
  have len_fp: "length xp = length ?fp" by (simp add: px(1) len_ys)
  have fp_ne: "?fp \<noteq> []" using ys_ne by simp
  have sorted_fp: "sorted ?fp"
    unfolding sorted_map
  proof (rule sorted_wrt_mono_rel [OF _ sorted_ys])
    fix x y :: real
    assume "x \<in> set ?ys" "y \<in> set ?ys" and "x \<le> y"
    then show "x / last ?ys \<le> y / last ?ys"
      using assms(3) last_ys by (simp add: divide_right_mono)
  qed
  have hd_fp: "hd ?fp = hd env / ?T"
    using ys_ne by (simp add: hd_map hd_ys last_ys)
  have last_fp: "last ?fp = 1"
    using ys_ne assms(3) by (simp add: last_map last_ys)
  have hd_nonneg: "0 \<le> hd env / ?T"
  proof -
    have "hd env \<in> set env" using assms(1) by simp
    with assms(2) have "0 \<le> hd env" by blast
    with assms(3) show ?thesis by simp
  qed
  let ?fr = "map (\<lambda>x. interp_at x xp ?fp) rs"
  have res: "schedule_from_onset env (int n) = Inr (map Finite ?fr)"
    using xp rs ys_ne assms(3) xp_ne len_fp
    by (simp add: schedule_from_onset_def Let_def last_ys interp_def)
  have bounds: "\<And>x. hd ?fp \<le> interp_at x xp ?fp \<and> interp_at x xp ?fp \<le> last ?fp"
    by (rule interp_at_bounds [OF strict sorted_fp len_fp fp_ne])
  have range: "\<forall>x \<in> set ?fr. 0 \<le> x \<and> x \<le> 1"
  proof
    fix v assume "v \<in> set ?fr"
    then obtain x where v: "v = interp_at x xp ?fp" by auto
    from bounds [of x] hd_fp last_fp hd_nonneg v show "0 \<le> v \<and> v \<le> 1" by simp
  qed
  have sorted_fr: "sorted ?fr"
    unfolding sorted_map
  proof (rule sorted_wrt_mono_rel [OF _ pr(2)])
    fix x y :: real
    assume "x \<in> set rs" "y \<in> set rs" and "x \<le> y"
    then show "interp_at x xp ?fp \<le> interp_at y xp ?fp"
      by (intro interp_at_mono [OF strict sorted_fp len_fp fp_ne])
  qed
  have hd_fr: "hd ?fr = hd env / ?T" if "0 < n"
  proof -
    from that pr(1) have ne: "rs \<noteq> []" by auto
    from that pr(4) have "hd rs = 0" by simp
    then have "interp_at (hd rs) xp ?fp = hd ?fp"
      using hd_xp by (intro interp_at_left [OF len_fp fp_ne]) simp
    with ne hd_fp show ?thesis by (simp add: hd_map)
  qed
  have last_fr: "last ?fr = 1" if "2 \<le> n"
  proof -
    from that pr(1) have ne: "rs \<noteq> []" by auto
    from that pr(5) have "last rs = real (length ?ys)" by simp
    with last_xp len_ys have "last xp \<le> last rs" by simp
    then have "interp_at (last rs) xp ?fp = last ?fp"
      by (intro interp_at_right [OF strict len_fp fp_ne])
    with ne last_fp show ?thesis by (simp add: last_map)
  qed
  have "length ?fr = n" using pr(1) by simp
  with res range sorted_fr hd_fr last_fr show ?thesis by blast
qed

lemma schedule_from_onset_empty: "schedule_from_onset [] num_frames = Inl IndexError"
  by (simp add: schedule_from_onset_def linspace_def cumsum_def)

lemma schedule_from_onset_zero_total:
  assumes "env \<noteq> []" and "sum_list env = 0"
  shows "schedule_from_onset env (int n) = Inr (replicate n NonFinite)"
proof -
  have ne: "cumsum env \<noteq> []"
    using assms(1) length_cumsum_from [of 0 env] by (auto simp: cumsum_def)
  have "last (cumsum env) = 0"
    using assms by (simp add: cumsum_def last_cumsum_from)
  with ne show ?thesis
    by (simp add: schedule_from_onset_def Let_def linspace_nat map_replicate_const)
qed

lemma audio_schedule_unfold:
  "0 < fps' \<Longrightarrow>
   get_interpolation_schedule onset start_frame end_frame fps' (Some a) sr' =
     (case onset (audio_slice start_frame end_frame fps' a sr') sr' of
        Inl e \<Rightarrow> Inl e
      | Inr env \<Rightarrow> schedule_from_onset env (int end_frame - int start_frame + 1))"
  by (simp add: get_interpolation_schedule_def get_interpolation_schedule_from_audio_def Let_def)

lemma audio_slice_degenerate: "audio_slice start_frame start_frame fps' a sr' = []"
  by (simp add: audio_slice_def Let_def drop_take)

text \<open>
  C2. For \<open>start_frame < end_frame\<close>, in uniform mode, and in audio-reactive
  mode whenever the onset envelope of the slice is non-empty, non-negative and of positive
  total, the scheduler returns \<open>end_frame - start_frame + 1\<close> finite fractions, all in
  \<open>[0, 1]\<close>, non-decreasing, the last one 1. The first one is 0 in uniform mode and
  \<open>onset_env[0] / sum(onset_env)\<close> in audio-reactive mode, so it is 0 exactly when the
  envelope starts at 0.
\<close>

theorem interpolation_fractions:
  assumes "start_frame < end_frame"
    and "audio = None \<or>
         (0 < fps' \<and>
          (\<exists>a env. audio = Some a \<and>
             onset (audio_slice start_frame end_frame fps' a sr') sr' = Inr env \<and>
             env \<noteq> [] \<and> (\<forall>x \<in> set env. 0 \<le> x) \<and> 0 < sum_list env))"
  shows "\<exists>fr. get_interpolation_schedule onset start_frame end_frame fps' audio sr' =
                Inr (map Finite fr) \<and>
              length fr = end_frame - start_frame + 1 \<and>
              (\<forall>x \<in> set fr. 0 \<le> x \<and> x \<le> 1) \<and> sorted fr \<and> last fr = 1 \<and>
              (audio = None \<longrightarrow> hd fr = 0) \<and>
              (\<forall>a env. audio = Some a \<and>
                 onset (audio_slice start_frame end_frame fps' a sr') sr' = Inr env \<longrightarrow>
                 hd fr = hd env / sum_list env)"
  using assms(2)
proof
  assume none: "audio = None"
  from assms(1) have "start_frame \<le> end_frame" by simp
  from uniform_schedule_props [OF this, of onset fps' sr'] assms(1) none
  show ?thesis by auto
next
  assume "0 < fps' \<and>
          (\<exists>a env. audio = Some a \<and>
             onset (audio_slice start_frame end_frame fps' a sr') sr' = Inr env \<and>
             env \<noteq> [] \<and> (\<forall>x \<in> set env. 0 \<le> x) \<and> 0 < sum_list env)"
  then obtain a env where fps: "0 < fps'" and a: "audio = Some a"
    and env: "onset (audio_slice start_frame end_frame fps' a sr') sr' = Inr env"
    and ne: "env \<noteq> []" and nonneg: "\<forall>x \<in> set env. 0 \<le> x" and pos: "0 < sum_list env"
    by blast
  let ?n = "end_frame - start_frame + 1"
  have num: "int end_frame - int start_frame + 1 = int ?n"
    using assms(1) by simp
  have n2: "2 \<le> ?n" "0 < ?n" using assms(1) by simp_all
  have run: "get_interpolation_schedule onset start_frame end_frame fps' audio sr' =
      schedule_from_onset env (int ?n)"
    unfolding a audio_schedule_unfold [OF fps] env num by simp
  from schedule_from_onset_props [OF ne nonneg pos, of ?n] obtain fr where
    fr: "schedule_from_onset env (int ?n) = Inr (map Finite fr)" "length fr = ?n"
      "\<forall>x \<in> set fr. 0 \<le> x \<and> x \<le> 1" "sorted fr"
      "hd fr = hd env / sum_list env" "last fr = 1"
    using n2 by blast
  with run a env show ?thesis by auto
qed

theorem interpolation_fractions_witness:
  "get_interpolation_schedule example_onset 0 5 10 None 0 =
     Inr (map Finite [0, 1 / 5, 2 / 5, 3 / 5, 4 / 5, 1]) \<and>
   example_onset (audio_slice 0 2 1 [0, 1, 1, 3, 3, 3, 4, 4] 4) 4 =
     Inr [0, 1 / 2, 0, 1, 0, 0, 1 / 2, 0] \<and>
   get_interpolation_schedule example_onset 0 2 1 (Some [0, 1, 1, 3, 3, 3, 4, 4]) 4 =
     Inr (map Finite [0, 3 / 4, 1])"
proof -
  have env: "example_onset (audio_slice 0 2 1 [0, 1, 1, 3, 3, 3, 4, 4] 4) 4 =
      Inr [0, 1 / 2, 0, 1, 0, 0, 1 / 2, 0]"
    by (simp add: example_onset_def audio_slice_def Let_def)
  have u: "get_interpolation_schedule example_onset 0 5 10 None 0 =
      Inr (map Finite [0, 1 / 5, 2 / 5, 3 / 5, 4 / 5, 1])"
    by (simp add: get_interpolation_schedule_def linspace_def upt_rec)
  have "schedule_from_onset [0, 1 / 2, 0, 1, 0, 0, 1 / 2, 0] 3 = Inr (map Finite [0, 3 / 4, 1])"
    by (simp add: schedule_from_onset_def linspace_def cumsum_def interp_def Let_def upt_rec)
  with env have a: "get_interpolation_schedule example_onset 0 2 1 (Some [0, 1, 1, 3, 3, 3, 4, 4]) 4 =
      Inr (map Finite [0, 3 / 4, 1])"
    by (simp add: audio_schedule_unfold)
  from env u a show ?thesis
    using interpolation_fractions [of 0 5 None 10 example_onset 0]
      interpolation_fractions [of 0 2 "Some [0, 1, 1, 3, 3, 3, 4, 4]" 1 example_onset 4]
    by simp
qed

theorem interpolation_fractions_counterexample:
  "get_interpolation_schedule example_onset 3 3 10 None 0 = Inr [Finite 0] \<and>
   get_interpolation_schedule example_onset 0 2 1 (Some [0, 0, 0, 0, 0, 0, 0, 0]) 4 =
     Inr [NonFinite, NonFinite, NonFinite]"
proof -
  have "get_interpolation_schedule example_onset 3 3 10 None 0 = Inr [Finite 0]"
    by (simp add: get_interpolation_schedule_def linspace_def)
  moreover have "example_onset (audio_slice 0 2 1 [0, 0, 0, 0, 0, 0, 0, 0] 4) 4 =
      Inr [0, 0, 0, 0, 0, 0, 0, 0]"
    by (simp add: example_onset_def audio_slice_def Let_def)
  moreover have "schedule_from_onset [0, 0, 0, 0, 0, 0, 0, 0] 3 =
      Inr [NonFinite, NonFinite, NonFinite]"
    by (simp add: schedule_from_onset_def linspace_def cumsum_def Let_def upt_rec)
  ultimately show ?thesis
    by (simp add: audio_schedule_unfold)
qed

text \<open>
  C5. For a degenerate pair the uniform schedule is \<open>[0]\<close>. With an audio
  array configured the scheduler takes the audio path for every pair: for a degenerate
  pair the slice is empty and is handed to the onset extractor, whose outcome decides the
  result. An exception of the extractor is passed on unchanged, an empty envelope raises
  \<open>IndexError\<close>, and a non-empty envelope of total 0 raises nothing: the schedule then
  consists of \<open>end_frame - start_frame + 1\<close> values that are not finite numbers.
\<close>

theorem degenerate_pair_takes_audio_path:
  assumes "0 < fps'" and "start_frame \<le> end_frame"
  shows "get_interpolation_schedule onset start_frame start_frame fps' None sr' = Inr [Finite 0] \<and>
         audio_slice start_frame start_frame fps' a sr' = [] \<and>
         get_interpolation_schedule onset start_frame start_frame fps' (Some a) sr' =
           (case onset [] sr' of Inl e \<Rightarrow> Inl e | Inr env \<Rightarrow> schedule_from_onset env 1) \<and>
         (\<forall>err. onset (audio_slice start_frame end_frame fps' a sr') sr' = Inl err \<longrightarrow>
            get_interpolation_schedule onset start_frame end_frame fps' (Some a) sr' = Inl err) \<and>
         (onset (audio_slice start_frame end_frame fps' a sr') sr' = Inr [] \<longrightarrow>
            get_interpolation_schedule onset start_frame end_frame fps' (Some a) sr' =
              Inl IndexError) \<and>
         (\<forall>env. onset (audio_slice start_frame end_frame fps' a sr') sr' = Inr env \<and>
                env \<noteq> [] \<and> sum_list env = 0 \<longrightarrow>
            get_interpolation_schedule onset start_frame end_frame fps' (Some a) sr' =
              Inr (replicate (end_frame - start_frame + 1) NonFinite))"
proof -
  have num: "int end_frame - int start_frame + 1 = int (end_frame - start_frame + 1)"
    using assms(2) by simp
  have "get_interpolation_schedule onset start_frame start_frame fps' None sr' = Inr [Finite 0]"
    by (simp add: get_interpolation_schedule_def linspace_def)
  moreover have "get_interpolation_schedule onset start_frame start_frame fps' (Some a) sr' =
      (case onset [] sr' of Inl e \<Rightarrow> Inl e | Inr env \<Rightarrow> schedule_from_onset env 1)"
    by (simp add: audio_schedule_unfold [OF assms(1)] audio_slice_degenerate split: sum.splits)
  moreover have "\<forall>env. onset (audio_slice start_frame end_frame fps' a sr') sr' = Inr env \<and>
                env \<noteq> [] \<and> sum_list env = 0 \<longrightarrow>
            get_interpolation_schedule onset start_frame end_frame fps' (Some a) sr' =
              Inr (replicate (end_frame - start_frame + 1) NonFinite)"
    unfolding audio_schedule_unfold [OF assms(1)] num
    by (auto simp: schedule_from_onset_zero_total simp del: of_nat_add of_nat_Suc)
  ultimately show ?thesis
    by (simp add: audio_schedule_unfold [OF assms(1)] audio_slice_degenerate
        schedule_from_onset_empty)
qed

theorem degenerate_pair_takes_audio_path_witness:
  "get_interpolation_schedule example_onset 3 3 10 None 4 = Inr [Finite 0] \<and>
   audio_slice 3 3 10 [0, 1, 1, 3, 3, 3, 4, 4] 4 = [] \<and>
   example_onset [] 4 = Inl (LibraryError ''ParameterError'') \<and>
   get_interpolation_schedule example_onset 3 3 10 (Some [0, 1, 1, 3, 3, 3, 4, 4]) 4 =
     Inl (LibraryError ''ParameterError'')"
  using degenerate_pair_takes_audio_path
    [where fps' = 10 and start_frame = 3 and end_frame = 3 and onset = example_onset
       and sr' = 4 and a = "[0, 1, 1, 3, 3, 3, 4, 4]"]
  by (simp add: example_onset_def)

theorem degenerate_pair_counterexample:
  "get_interpolation_schedule example_onset 2 2 1 (Some [0, 1, 1, 3, 3, 3, 4, 4, 5, 5, 5, 5]) 4 =
     Inl (LibraryError ''ParameterError'') \<and>
   get_interpolation_schedule example_onset 0 1 1 (Some [2, 2, 2, 2]) 4 =
     Inr [NonFinite, NonFinite]"
proof -
  have "example_onset (audio_slice 2 2 1 [0, 1, 1, 3, 3, 3, 4, 4, 5, 5, 5, 5] 4) 4 =
      Inl (LibraryError ''ParameterError'')"
    by (simp add: example_onset_def audio_slice_def Let_def)
  moreover have "example_onset (audio_slice 0 1 1 [2, 2, 2, 2] 4) 4 = Inr [0, 0, 0, 0]"
    by (simp add: example_onset_def audio_slice_def Let_def)
  moreover have "schedule_from_onset [0, 0, 0, 0] 2 = Inr [NonFinite, NonFinite]"
    by (simp add: schedule_from_onset_def linspace_def cumsum_def Let_def upt_rec)
  ultimately show ?thesis
    by (simp add: audio_schedule_unfold)
qed

section \<open>Coverage of the timeline\<close>

lemma dom_store_frames:
  "dom (store_frames f k ts out) = dom out \<union> {k..<k + length ts}"
proof (induction ts arbitrary: k out)
  case Nil
  then show ?case by simp
next
  case (Cons t ts)
  have "dom (store_frames f (Suc k) ts (out(k \<mapsto> f t))) =
      dom (out(k \<mapsto> f t)) \<union> {Suc k..<Suc k + length ts}"
    by (rule Cons.IH)
  then show ?case by auto
qed

lemma schedule_from_onset_length:
  "schedule_from_onset env (int n) = Inr sched \<Longrightarrow> length sched = n"
  by (auto simp: schedule_from_onset_def linspace_nat interp_def Let_def
      split: if_splits sum.splits)

lemma schedule_length:
  assumes "get_interpolation_schedule onset start_frame end_frame fps' audio sr' = Inr sched"
    and "start_frame \<le> end_frame"
  shows "length sched = end_frame - start_frame + 1"
proof -
  let ?n = "end_frame - start_frame + 1"
  have num: "int end_frame - int start_frame + 1 = int ?n"
    using assms(2) by simp
  show ?thesis
  proof (cases audio)
    case None
    with assms(1) show ?thesis
      unfolding get_interpolation_schedule_def num
      by (auto simp: linspace_nat simp del: of_nat_add of_nat_Suc)
  next
    case (Some a)
    with assms(1) obtain env where "schedule_from_onset env (int ?n) = Inr sched"
      unfolding get_interpolation_schedule_def get_interpolation_schedule_from_audio_def num
      by (auto simp: Let_def simp del: of_nat_add of_nat_Suc split: if_splits sum.splits)
    then show ?thesis by (rule schedule_from_onset_length)
  qed
qed

lemma get_init_latents_loop_dom:
  assumes "sorted_wrt (<) (map fst (kf # kfs))"
    and "get_init_latents_loop E F (zip (kf # kfs) kfs) start_latent out = Inr m"
  shows "dom m = dom out \<union> (if kfs = [] then {} else {fst kf..fst (last kfs)})"
  using assms
proof (induction kfs arbitrary: kf start_latent out)
  case Nil
  then show ?case by simp
next
  case (Cons k1 kfs)
  obtain s p where kf: "kf = (s, p)" by (cases kf)
  obtain e q where k1: "k1 = (e, q)" by (cases k1)
  from Cons.prems(1) kf k1 have se: "s < e" by simp
  from Cons.prems(1) have sorted': "sorted_wrt (<) (map fst (k1 # kfs))" by simp
  from Cons.prems(2) kf k1 obtain end_latent sched where
    sched: "get_interpolation_schedule (onset_env E) s e (fps F) (audio_array F) (sr F) = Inr sched"
    and rest: "get_init_latents_loop E F (zip (k1 # kfs) kfs) end_latent
        (store_frames (\<lambda>t. slerp E t start_latent end_latent) s sched out) = Inr m"
    by (auto split: sum.splits if_splits)
  from schedule_length [OF sched] se have len: "length sched = e - s + 1" by simp
  have "dom (store_frames (\<lambda>t. slerp E t start_latent end_latent) s sched out) =
      dom out \<union> {s..e}"
    using se by (auto simp: dom_store_frames len)
  with Cons.IH [OF sorted' rest]
  have d: "dom m = dom out \<union> {s..e} \<union> (if kfs = [] then {} else {fst k1..fst (last kfs)})"
    by simp
  show ?case
  proof (cases "kfs = []")
    case True
    with d kf k1 show ?thesis by simp
  next
    case False
    then have "last kfs \<in> set kfs" by simp
    with Cons.prems(1) k1 have "e < fst (last kfs)" by auto
    with se have "{s..e} \<union> {e..fst (last kfs)} = {s..fst (last kfs)}" by auto
    with d False kf k1 show ?thesis by auto
  qed
qed

lemma get_init_latents_loop_total:
  assumes "sorted_wrt (<) (map fst (kf # kfs))"
    and "audio_array F = None"
    and "use_fixed_latent F \<or> (\<forall>k \<in> set kfs. fst k < length (seed_schedule F))"
  shows "\<exists>m. get_init_latents_loop E F (zip (kf # kfs) kfs) start_latent out = Inr m"
  using assms(1,3)
proof (induction kfs arbitrary: kf start_latent out)
  case Nil
  then show ?case by simp
next
  case (Cons k1 kfs)
  obtain s p where kf: "kf = (s, p)" by (cases kf)
  obtain e q where k1: "k1 = (e, q)" by (cases k1)
  from Cons.prems(1) kf k1 have se: "s \<le> e" by simp
  from Cons.prems(1) have sorted': "sorted_wrt (<) (map fst (k1 # kfs))" by simp
  from uniform_schedule_props [OF se, of "onset_env E" "fps F" "sr F"] assms(2)
  obtain sched where
    sched: "get_interpolation_schedule (onset_env E) s e (fps F) (audio_array F) (sr F) = Inr sched"
    by auto
  have "\<exists>end_latent. (if use_fixed_latent F then Inr start_latent
          else (case seed_at (seed_schedule F) e of
                  Inl err \<Rightarrow> Inl err | Inr z \<Rightarrow> Inr (randn E z))) = Inr end_latent"
  proof (cases "use_fixed_latent F")
    case True
    then show ?thesis by simp
  next
    case False
    with Cons.prems(2) k1 have "e < length (seed_schedule F)" by auto
    with False show ?thesis by (simp add: seed_at_def)
  qed
  then obtain end_latent where
    el: "(if use_fixed_latent F then Inr start_latent
          else (case seed_at (seed_schedule F) e of
                  Inl err \<Rightarrow> Inl err | Inr z \<Rightarrow> Inr (randn E z))) = Inr end_latent"
    by blast
  from Cons.prems(2) have "use_fixed_latent F \<or> (\<forall>k \<in> set kfs. fst k < length (seed_schedule F))"
    by auto
  from Cons.IH [OF sorted' this] obtain m where
    "get_init_latents_loop E F (zip (k1 # kfs) kfs) end_latent
        (store_frames (\<lambda>t. slerp E t start_latent end_latent) s sched out) = Inr m"
    by blast
  with sched el kf k1 show ?case by simp
qed

lemma timeline_covers_key_frame_range:
  assumes "sorted_wrt (<) (map fst key_frames)" and "2 \<le> length key_frames"
    and "audio_array F = None"
    and "use_fixed_latent F \<or> (\<forall>k \<in> set key_frames. fst k < length (seed_schedule F))"
  shows "\<exists>m. get_init_latents E F key_frames = Inr m \<and>
           dom m = {fst (hd key_frames)..fst (last key_frames)} \<and>
           card (dom m) = fst (last key_frames) + 1 - fst (hd key_frames)"
proof -
  obtain kf kfs where kfs0: "key_frames = kf # kfs"
    using assms(2) by (cases key_frames) auto
  with assms(2) have "kfs \<noteq> []" by auto
  note kfs = kfs0 this
  from assms(4) kfs have "use_fixed_latent F \<or> (\<forall>k \<in> set kfs. fst k < length (seed_schedule F))"
    by auto
  from get_init_latents_loop_total [OF assms(1) [unfolded kfs] assms(3) this]
  obtain m where m: "get_init_latents_loop E F (zip (kf # kfs) kfs) (randn E (seed F)) Map.empty = Inr m"
    by blast
  from get_init_latents_loop_dom [OF assms(1) [unfolded kfs] m] kfs
  have "dom m = {fst kf..fst (last kfs)}" by simp
  with m kfs show ?thesis
    by (simp add: get_init_latents_def)
qed

text \<open>
  C1. With two or more key frames in strictly increasing order, uniform timing and a seed
  for every key frame, the latent timeline has exactly the frames from the first key frame
  to the last, \<open>max_frames - first\<close> of them (\<open>timeline_covers_key_frame_range\<close>). A
  single key frame, which the claim gives a timeline of length 1, has no adjacent pair:
  \<open>max_frames\<close> is 1, but the latent and embedding timelines of both flows are empty,
  while the forward-filled prompts do have frame 0, and the batch generator ends with
  \<open>KeyError\<close> at frame 0.
\<close>

theorem single_key_frame_timeline_empty:
  "max_frames_of [(0, ''A'')] = Inr 1 \<and>
   get_init_latents E F [(0, ''A'')] = Inr Map.empty \<and>
   get_prompt_embeddings E F [(0, ''A'')] = Inr Map.empty \<and>
   get_init_latents_and_text_embeddings E G [(0, ''A'')] fixed = Inr (Map.empty, Map.empty) \<and>
   get_prompts (F\<lparr>max_frames := 1\<rparr>) [(0, ''A'')] 0 = Some (Text ''A'') \<and>
   byop_batch_generator
     (F\<lparr>init_latents := Map.empty, prompts := get_prompts (F\<lparr>max_frames := 1\<rparr>) [(0, ''A'')]\<rparr>)
     [0] 1 = ([], Some (KeyError 0))"
  by (simp add: max_frames_of_def get_init_latents_def get_prompt_embeddings_def
      get_init_latents_and_text_embeddings_def get_prompts_def ffill_def prompt_of_def
      byop_batch_generator_def Let_def)

end
